theory Spec2Isabelle
  imports Main "HOL-Library.Word"
begin

section \<open>Data model of \<open>ZipLib<Processor>\<close> (src/zlib.h)\<close>

text \<open>The stream state, \<open>enum State\<close> of the class.\<close>

datatype State = Idle | Destroyed | Data | Eos | Error

text \<open>\<open>Request::Kind\<close>.\<close>

datatype Kind = RWrite | RClose | RDestroy

text \<open>
  A \<open>char *\<close> into the bytes of a request's input Buffer: the bytes of the Buffer and an
  offset into them. \<open>ZipLib::Write\<close> only does arithmetic on the pointer, the Processor
  is the one that reads through it.
\<close>

type_synonym ptr = "string \<times> int"

definition ptr_add :: "ptr \<Rightarrow> int \<Rightarrow> ptr" where
  "ptr_add d n = (fst d, snd d + n)"

definition ptr_sub :: "ptr \<Rightarrow> int \<Rightarrow> ptr" where
  "ptr_sub d n = (fst d, snd d - n)"

text \<open>
  A C \<open>int\<close> that the code computes with, the length of the input that is left, is a
  word of 32 bits read as a signed number (\<open>sint\<close>): \<open>+\<close> wraps around, as the compiled
  code does where C++ leaves the overflow of \<open>int\<close> undefined. The status codes are of type
  \<open>int\<close> too, but they are only compared, and the model has them as integers.
\<close>

type_synonym c_int = "32 word"


text \<open>
  The calls a method makes on its external collaborators (the \<open>Processor\<close> member and
  the output \<open>Blob\<close>) are its observable effects. The model records each of them, with
  its arguments and its answer, in the order the code makes them (a length is recorded
  as the signed value of its word):
  \<^item> \<open>CGrowBy n ok\<close>: \<open>out.GrowBy(n)\<close> answered \<open>ok\<close>;
  \<^item> \<open>CWrite n ret n'\<close>: \<open>processor_.Write(p, n, out)\<close> answered \<open>ret\<close> and left \<open>n'\<close>
    in the length it was handed by reference;
  \<^item> \<open>CFinish ret\<close>: \<open>processor_.Finish(out)\<close> answered \<open>ret\<close>;
  \<^item> \<open>CDestroy\<close>: \<open>processor_.Destroy()\<close>;
  \<^item> \<open>CInit ok\<close>: \<open>processor_.Init(args)\<close>, \<open>ok\<close> when it reported no exception.
\<close>

datatype Call = CInit bool | CGrowBy int bool | CWrite int int int | CFinish int | CDestroy

text \<open>
  JavaScript values as far as the bindings look at them: \<open>Buffer::HasInstance\<close>,
  \<open>IsUndefined\<close> and \<open>IsFunction\<close>. A function is known by a number; the bytes of a
  Buffer are its content.
\<close>

datatype Value = Undefined | Null | Number int | String string | BufferObject string | Function nat

datatype Exception = TypeError string | JsError string

fun HasInstance :: "Value \<Rightarrow> bool" where
  "HasInstance (BufferObject b) = True"
| "HasInstance v = False"

fun IsFunction :: "Value \<Rightarrow> bool" where
  "IsFunction (Function f) = True"
| "IsFunction v = False"

fun IsUndefined :: "Value \<Rightarrow> bool" where
  "IsUndefined Undefined = True"
| "IsUndefined v = False"

text \<open>\<open>args[i]\<close> of \<open>v8::Arguments\<close>: \<open>undefined\<close> beyond \<open>args.Length()\<close>.\<close>

definition arg :: "Value list \<Rightarrow> nat \<Rightarrow> Value" where
  "arg args i = (if i < length args then args ! i else Undefined)"

text \<open>
  The template parameter \<open>Processor\<close>, with its member types \<open>Processor::Utils\<close> and
  \<open>Processor::Blob\<close>. None of them is defined in zlib.h, so they are parameters of the
  model: \<open>'p\<close> is the state of a Processor object, \<open>'b\<close> the state of a Blob.
  \<^item> \<open>StatusOk\<close>, \<open>StatusSequenceError\<close>, \<open>StatusMemoryError\<close>, \<open>StatusEndOfStream\<close> and
    \<open>IsError\<close> are the static members of \<open>Utils\<close>;
  \<^item> \<open>GrowBy\<close> is \<open>Blob::GrowBy\<close>, with the answer whether the allocation worked;
    \<open>BlobNew\<close> is a default-constructed Blob; \<open>BlobBytes\<close> reads \<open>data()\<close> up to
    \<open>length()\<close>;
  \<^item> \<open>PNew\<close> is a default-constructed Processor and \<open>PInit\<close> is
    \<open>Processor::Init(args)\<close>, with the exception it reports, if any;
  \<^item> \<open>PWrite\<close> is \<open>Processor::Write(data, dataLength, out)\<close>: \<open>dataLength\<close> is passed by
    reference (the loop of \<open>ZipLib::Write\<close> changes it nowhere else), and its new value
    is the second component of the result;
  \<^item> \<open>PFinish\<close> is \<open>Processor::Finish(out)\<close> and \<open>PDestroy\<close> is \<open>Processor::Destroy()\<close>.
\<close>

record ('p, 'b) Processor =
  StatusOk :: int
  StatusSequenceError :: int
  StatusMemoryError :: int
  StatusEndOfStream :: int
  IsError :: "int \<Rightarrow> bool"
  GrowBy :: "'b \<Rightarrow> int \<Rightarrow> bool \<times> 'b"
  BlobNew :: 'b
  BlobBytes :: "'b \<Rightarrow> string"
  PNew :: 'p
  PInit :: "'p \<Rightarrow> Value list \<Rightarrow> Exception option \<times> 'p"
  PWrite :: "'p \<Rightarrow> ptr \<Rightarrow> c_int \<Rightarrow> 'b \<Rightarrow> int \<times> c_int \<times> 'p \<times> 'b"
  PFinish :: "'p \<Rightarrow> 'b \<Rightarrow> int \<times> 'p \<times> 'b"
  PDestroy :: "'p \<Rightarrow> 'p"

text \<open>
  Modelled from the spec: \<open>StateTransition<State>\<close> and \<open>COND_RETURN\<close> of utils.h, which
  is not among the sources. The spec describes the guard as "a scoped guard object whose
  destructor commits the intended terminal state unless explicitly aborted": it is built
  on the state variable with a target value, \<open>alter\<close> replaces the target, \<open>abort\<close>
  cancels the commit, and leaving the scope (\<open>leave\<close>) writes the target into the state
  variable unless aborted. \<open>COND_RETURN(c, r)\<close> is \<open>if (c) return r;\<close>.
\<close>

record Transition =
  target :: State
  aborted :: bool

definition Transition :: "State \<Rightarrow> Transition" where
  "Transition v = \<lparr>target = v, aborted = False\<rparr>"

definition alter :: "Transition \<Rightarrow> State \<Rightarrow> Transition" where
  "alter t v = t\<lparr>target := v\<rparr>"

definition abort :: "Transition \<Rightarrow> Transition" where
  "abort t = t\<lparr>aborted := True\<rparr>"

text \<open>
  \<open>struct Request\<close>. \<open>buffer\<close> and \<open>callback\<close> are the persistent handles \<open>buffer_\<close> and
  \<open>callback_\<close>, \<open>None\<close> the empty handle; \<open>dataR\<close> and \<open>lengthR\<close> are \<open>data_\<close> and
  \<open>length_\<close>; \<open>outR\<close> is \<open>out_\<close>; \<open>status\<close> is \<open>status_\<close>, which no constructor sets:
  \<open>None\<close> until \<open>setStatus\<close>. (\<open>self_\<close> is left out: the model has one instance.)
  \<open>length_\<close> is an \<open>int\<close> set from the \<open>size_t\<close> length of the Buffer, which keeps its low
  32 bits.
\<close>

record 'b Request =
  kind :: Kind
  buffer :: "Value option"
  dataR :: ptr
  lengthR :: c_int
  callback :: "nat option"
  outR :: 'b
  status :: "int option"

text \<open>
  Modelled from the spec: \<open>Queue<T>\<close> of utils.h, which is not among the sources. The
  spec gives it as "an ordered sequence of opaque entries, FIFO", "push/pop/length are the
  only operations", where a push may fail to allocate. It is a list with the front first:
  \<open>Queue_Push\<close> appends at the back when the allocation works (\<open>ok\<close>) and answers
  whether it did; \<open>Queue_Pop\<close> takes the front (the code pops a queue only after it has
  seen that its length is not zero).
\<close>

type_synonym 'a Queue = "'a list"

definition Queue_Push :: "bool \<Rightarrow> 'a Queue \<Rightarrow> 'a \<Rightarrow> bool \<times> 'a Queue" where
  "Queue_Push ok q x = (if ok then (True, q @ [x]) else (False, q))"

definition Queue_Pop :: "'a Queue \<Rightarrow> 'a option \<times> 'a Queue" where
  "Queue_Pop q = (case q of [] \<Rightarrow> (None, []) | x # rest \<Rightarrow> (Some x, rest))"

text \<open>
  A \<open>ZipLib\<close> object. \<open>Write\<close>, \<open>Close\<close>, \<open>Finish\<close> and \<open>Destroy\<close> read and write two
  of its members only, \<open>processor_\<close> and \<open>state_\<close>: they are the record \<open>Stream\<close>, with
  the record \<open>calls\<close> of the calls made so far. The object has the stream, the members
  \<open>requestsQueue_\<close> and \<open>processorActive_\<close>, and the reference count \<open>refs\<close> that \<open>Ref()\<close>
  and \<open>Unref()\<close> of \<open>ObjectWrap\<close> move.
\<close>

record 'p Stream =
  processor :: 'p
  state :: State
  calls :: "Call list"

record ('p, 'b) ZipLib =
  stream :: "'p Stream"
  requestsQueue :: "'b Request Queue"
  processorActive :: bool
  refs :: int

text \<open>
  What is shared by the whole process: the static \<open>callbackQueue_\<close>, the reference count
  of the default event loop (\<open>ev_ref\<close>, \<open>ev_unref\<close>), and the JavaScript calls made by
  \<open>DoCallback\<close> so far, each with the function, the status handed to
  \<open>Utils::GetException\<close> and the bytes handed to \<open>Encode\<close>.
\<close>

record 'b Host =
  callbackQueue :: "'b Request Queue"
  ev_refs :: int
  invoked :: "(nat \<times> int option \<times> string) list"

text \<open>
  The end of the scope of a \<open>Transition\<close> on \<open>state_\<close>, and the record of a call.
\<close>

definition leave :: "Transition \<Rightarrow> 'p Stream \<Rightarrow> 'p Stream" where
  "leave t z = (if aborted t then z else z\<lparr>state := target t\<rparr>)"

definition called :: "Call \<Rightarrow> 'p Stream \<Rightarrow> 'p Stream" where
  "called c z = z\<lparr>calls := calls z @ [c]\<rparr>"

section \<open>The stream operations\<close>

text \<open>\<open>void Destroy()\<close>.\<close>

definition Destroy :: "('p, 'b) Processor \<Rightarrow> 'p Stream \<Rightarrow> 'p Stream" where
  "Destroy P z =
     (let z1 = (if state z \<noteq> Idle \<and> state z \<noteq> Destroyed
                then called CDestroy (z\<lparr>processor := PDestroy P (processor z)\<rparr>)
                else z)
      in z1\<lparr>state := Destroyed\<rparr>)"

text \<open>
  \<open>int Finish(Blob &out)\<close>. The \<open>do ... while\<close> loop ends only on an answer of the
  Processor, so it is a partial function: \<open>None\<close> is the loop that never ends. A result
  is the returned status, the Blob and the stream.
\<close>

partial_function (option) Finish ::
  "('p, 'b) Processor \<Rightarrow> 'p Stream \<Rightarrow> 'b \<Rightarrow> ((int \<times> 'b) \<times> 'p Stream) option" where
  "Finish P z out =
     (case GrowBy P out 128 of (grown, out1) \<Rightarrow>
        let z1 = called (CGrowBy 128 grown) z in
        if \<not> grown then Some ((StatusMemoryError P, out1), z1)
        else case PFinish P (processor z1) out1 of (ret, p', out2) \<Rightarrow>
          let z2 = called (CFinish ret) (z1\<lparr>processor := p'\<rparr>) in
          if IsError P ret then Some ((ret, out2), z2)
          else if ret \<noteq> StatusEndOfStream P then Finish P z2 out2
          else Some ((StatusOk P, out2), z2))"

declare Finish.simps [code]

text \<open>\<open>int Close(Blob &out)\<close>.\<close>

definition Close ::
  "('p, 'b) Processor \<Rightarrow> 'p Stream \<Rightarrow> 'b \<Rightarrow> ((int \<times> 'b) \<times> 'p Stream) option" where
  "Close P z out =
     (if state z = Idle \<or> state z = Destroyed then Some ((StatusOk P, out), z)
      else
        let t = Transition Error in
        case (if state z = Data then Finish P z out else Some ((StatusOk P, out), z)) of
          None \<Rightarrow> None
        | Some ((ret, out1), z1) \<Rightarrow>
            let t = abort t;
                z2 = Destroy P z1
            in Some ((ret, out1), leave t z2))"

text \<open>
  \<open>int Write(char *data, int dataLength, Blob &out)\<close>: the \<open>while\<close> loop first, with
  \<open>data\<close> already moved to the end of the input; then the method. The loop ends when
  the Processor has brought \<open>dataLength\<close> to zero, has answered with an error or with
  end of stream, or when the Blob cannot grow. \<open>dataLength\<close> is a C \<open>int\<close>: the
  comparison with zero is signed, and \<open>dataLength + 1\<close> wraps around at \<open>INT_MAX\<close>.
\<close>

partial_function (option) Write_loop ::
  "('p, 'b) Processor \<Rightarrow> Transition \<Rightarrow> ptr \<Rightarrow> 'p Stream \<Rightarrow> c_int \<Rightarrow> 'b
     \<Rightarrow> ((int \<times> 'b) \<times> 'p Stream) option" where
  "Write_loop P t data z dataLength out =
     (if sint dataLength > 0 then
        (case GrowBy P out (sint (dataLength + 1)) of (grown, out1) \<Rightarrow>
           let z1 = called (CGrowBy (sint (dataLength + 1)) grown) z in
           if \<not> grown then Some ((StatusMemoryError P, out1), leave t z1)
           else case PWrite P (processor z1) (ptr_sub data (sint dataLength)) dataLength out1 of
             (ret, dataLength', p', out2) \<Rightarrow>
               let z2 = called (CWrite (sint dataLength) ret (sint dataLength'))
                          (z1\<lparr>processor := p'\<rparr>) in
               if IsError P ret then Some ((ret, out2), leave t z2)
               else if ret = StatusEndOfStream P
                 then Some ((ret, out2), leave (alter t Eos) z2)
               else Write_loop P t data z2 dataLength' out2)
      else Some ((StatusOk P, out), leave (abort t) z))"

declare Write_loop.simps [code]

definition Write ::
  "('p, 'b) Processor \<Rightarrow> 'p Stream \<Rightarrow> ptr \<Rightarrow> c_int \<Rightarrow> 'b \<Rightarrow> ((int \<times> 'b) \<times> 'p Stream) option" where
  "Write P z data dataLength out =
     (if state z \<noteq> Data then Some ((StatusSequenceError P, out), z)
      else
        let t = Transition Error;
            data = ptr_add data (sint dataLength)
        in Write_loop P t data z dataLength out)"

section \<open>Requests and the bindings\<close>

text \<open>\<open>GetBuffer(inputBuffer)->data()\<close>, the bytes of a Buffer object.\<close>

fun BufferData :: "Value \<Rightarrow> string" where
  "BufferData (BufferObject b) = b"
| "BufferData v = []"

text \<open>
  The three constructors of \<open>Request\<close>. The members a constructor does not set
  (\<open>data_\<close> and \<open>length_\<close> of a close or destroy request) are never read; the model
  gives them a null pointer and zero.
\<close>

definition Request_Write ::
  "('p, 'b) Processor \<Rightarrow> Value \<Rightarrow> nat option \<Rightarrow> 'b Request" where
  "Request_Write P inputBuffer cb =
     \<lparr>kind = RWrite, buffer = Some inputBuffer, dataR = (BufferData inputBuffer, 0),
      lengthR = of_nat (length (BufferData inputBuffer)), callback = cb,
      outR = BlobNew P, status = None\<rparr>"

definition Request_Close :: "('p, 'b) Processor \<Rightarrow> nat option \<Rightarrow> 'b Request" where
  "Request_Close P cb =
     \<lparr>kind = RClose, buffer = None, dataR = ([], 0), lengthR = 0, callback = cb,
      outR = BlobNew P, status = None\<rparr>"

definition Request_Destroy :: "('p, 'b) Processor \<Rightarrow> 'b Request" where
  "Request_Destroy P =
     \<lparr>kind = RDestroy, buffer = None, dataR = ([], 0), lengthR = 0, callback = None,
      outR = BlobNew P, status = None\<rparr>"

definition ThrowGentleOom :: Exception where
  "ThrowGentleOom = JsError ''Insufficient space''"

definition ThrowCallbackExpected :: Exception where
  "ThrowCallbackExpected = TypeError ''Callback must be a function''"

text \<open>\<open>Local<Function>::Cast\<close>: the handle of a function, empty for another value.\<close>

fun Cast :: "Value \<Rightarrow> nat option" where
  "Cast (Function f) = Some f"
| "Cast v = None"

text \<open>
  The static methods \<open>Write\<close>, \<open>Close\<close> and \<open>Destroy\<close> up to their call of
  \<open>PushRequest\<close>: the exception thrown, or the pointer \<open>new(std::nothrow)\<close> gave
  (\<open>None\<close> is the null pointer, \<open>new_ok\<close> says whether the allocation worked). The
  local \<open>cb\<close> is the empty handle unless a function was passed.
\<close>

definition Write_request ::
  "('p, 'b) Processor \<Rightarrow> bool \<Rightarrow> Value list \<Rightarrow> Exception + 'b Request option" where
  "Write_request P new_ok args =
     (if \<not> HasInstance (arg args 0) then Inl (TypeError ''Input must be of type Buffer'')
      else
        case (if length args > 1 \<and> \<not> IsUndefined (arg args 1) then
                (if \<not> IsFunction (arg args 1) then Inl ThrowCallbackExpected
                 else Inr (Cast (arg args 1)))
              else Inr None) of
          Inl exception \<Rightarrow> Inl exception
        | Inr cb \<Rightarrow> Inr (if new_ok then Some (Request_Write P (arg args 0) cb) else None))"

definition Close_request ::
  "('p, 'b) Processor \<Rightarrow> bool \<Rightarrow> Value list \<Rightarrow> Exception + 'b Request option" where
  "Close_request P new_ok args =
     (case (if length args > 0 \<and> \<not> IsUndefined (arg args 0) then
              (if \<not> IsFunction (arg args 0) then Inl ThrowCallbackExpected
               else Inr (Cast (arg args 0)))
            else Inr None) of
        Inl exception \<Rightarrow> Inl exception
      | Inr cb \<Rightarrow> Inr (if new_ok then Some (Request_Close P cb) else None))"

definition Destroy_request ::
  "('p, 'b) Processor \<Rightarrow> bool \<Rightarrow> Value list \<Rightarrow> Exception + 'b Request option" where
  "Destroy_request P new_ok args = Inr (if new_ok then Some (Request_Destroy P) else None)"

text \<open>
  \<open>PushRequest\<close>, in the two parts the mutex makes: what runs between
  \<open>pthread_mutex_lock\<close> and \<open>pthread_mutex_unlock\<close> (\<open>push_ok\<close> says whether
  \<open>requestsQueue_.Push\<close> could allocate), with the locals \<open>pushed\<close> and
  \<open>startProcessing\<close> as result; and what runs after the unlock, whose second result says
  whether \<open>eio_custom\<close> was called with \<open>DoProcess\<close>.
\<close>

definition PushRequest_locked ::
  "bool \<Rightarrow> 'b Request \<Rightarrow> ('p, 'b) ZipLib \<Rightarrow> (bool \<times> bool) \<times> ('p, 'b) ZipLib" where
  "PushRequest_locked push_ok request z =
     (case Queue_Push push_ok (requestsQueue z) request of (pushed, queue) \<Rightarrow>
        let z1 = z\<lparr>requestsQueue := queue\<rparr>;
            startProcessing = (\<not> processorActive z1);
            z2 = (if pushed \<and> startProcessing then z1\<lparr>processorActive := True\<rparr> else z1)
        in ((pushed, startProcessing), z2))"

definition PushRequest_unlocked ::
  "bool \<times> bool \<Rightarrow> ('p, 'b) ZipLib \<times> 'b Host
     \<Rightarrow> ((Exception + Value) \<times> bool) \<times> ('p, 'b) ZipLib \<times> 'b Host" where
  "PushRequest_unlocked ps zh =
     (case ps of (pushed, startProcessing) \<Rightarrow> case zh of (z, h) \<Rightarrow>
        if \<not> pushed then ((Inl ThrowGentleOom, False), (z, h))
        else ((Inr Undefined, startProcessing),
              (z\<lparr>refs := refs z + 1\<rparr>, h\<lparr>ev_refs := ev_refs h + 1\<rparr>)))"

definition PushRequest ::
  "bool \<Rightarrow> 'b Request option \<Rightarrow> ('p, 'b) ZipLib \<times> 'b Host
     \<Rightarrow> ((Exception + Value) \<times> bool) \<times> ('p, 'b) ZipLib \<times> 'b Host" where
  "PushRequest push_ok request zh =
     (case request of
        None \<Rightarrow> ((Inl ThrowGentleOom, False), zh)
      | Some r \<Rightarrow>
          (case PushRequest_locked push_ok r (fst zh) of
             (ps, z1) \<Rightarrow> PushRequest_unlocked ps (z1, snd zh)))"

text \<open>The three prototype methods \<open>write\<close>, \<open>close\<close> and \<open>destroy\<close>.\<close>

datatype Method = MWrite | MClose | MDestroy

fun request_of ::
  "('p, 'b) Processor \<Rightarrow> Method \<Rightarrow> bool \<Rightarrow> Value list \<Rightarrow> Exception + 'b Request option" where
  "request_of P MWrite = Write_request P"
| "request_of P MClose = Close_request P"
| "request_of P MDestroy = Destroy_request P"

text \<open>
  A whole call of \<open>write\<close>, \<open>close\<close> or \<open>destroy\<close> from JavaScript, with the two
  allocations it may make: what it returns or throws, whether it has started \<open>DoProcess\<close>,
  and the object and the process after it.
\<close>

definition js_call ::
  "('p, 'b) Processor \<Rightarrow> Method \<Rightarrow> bool \<times> bool \<Rightarrow> Value list \<Rightarrow> ('p, 'b) ZipLib \<times> 'b Host
     \<Rightarrow> ((Exception + Value) \<times> bool) \<times> ('p, 'b) ZipLib \<times> 'b Host" where
  "js_call P m mem args zh =
     (case request_of P m (fst mem) args of
        Inl exception \<Rightarrow> ((Inl exception, False), zh)
      | Inr request \<Rightarrow> PushRequest (snd mem) request zh)"

section \<open>The worker and the callbacks\<close>

text \<open>\<open>ReentrantPop\<close>: the answer, the request popped and the queue left.\<close>

definition ReentrantPop :: "'a Queue \<Rightarrow> bool \<times> 'a option \<times> 'a Queue" where
  "ReentrantPop queue =
     (let result = (length queue \<noteq> 0)
      in if result then (case Queue_Pop queue of (request, rest) \<Rightarrow> (result, request, rest))
         else (result, None, queue))"

text \<open>The \<open>switch\<close> of \<open>DoProcess\<close> on the kind of the request popped.\<close>

definition DoProcess_switch ::
  "('p, 'b) Processor \<Rightarrow> 'p Stream \<Rightarrow> 'b Request \<Rightarrow> ('b Request \<times> 'p Stream) option" where
  "DoProcess_switch P z request =
     (case kind request of
        RWrite \<Rightarrow>
          (case Write P z (dataR request) (lengthR request) (outR request) of
             None \<Rightarrow> None
           | Some ((ret, out1), z1) \<Rightarrow> Some (request\<lparr>outR := out1, status := Some ret\<rparr>, z1))
      | RClose \<Rightarrow>
          (case Close P z (outR request) of
             None \<Rightarrow> None
           | Some ((ret, out1), z1) \<Rightarrow> Some (request\<lparr>outR := out1, status := Some ret\<rparr>, z1))
      | RDestroy \<Rightarrow> Some (request\<lparr>status := Some (StatusOk P)\<rparr>, Destroy P z))"

text \<open>
  The rest of the loop body of \<open>DoProcess\<close>: the push on \<open>callbackQueue_\<close> (\<open>push_ok\<close>
  says whether it can allocate), \<open>ev_unref\<close>, and \<open>Unref\<close> when the push failed. The
  notification \<open>ev_async_send\<close> changes nothing here: a round of \<open>DoHandleCallbacks\<close> can
  run whenever \<open>callbackQueue_\<close> holds a request.
\<close>

definition DoProcess_push ::
  "bool \<Rightarrow> 'b Request \<Rightarrow> ('p, 'b) ZipLib \<times> 'b Host \<Rightarrow> ('p, 'b) ZipLib \<times> 'b Host" where
  "DoProcess_push push_ok request zh =
     (case zh of (z, h) \<Rightarrow>
        case Queue_Push push_ok (callbackQueue h) request of (success, queue) \<Rightarrow>
          let h1 = h\<lparr>callbackQueue := queue\<rparr>;
              h2 = h1\<lparr>ev_refs := ev_refs h1 - 1\<rparr>
          in (if \<not> success then z\<lparr>refs := refs z - 1\<rparr> else z, h2))"

text \<open>
  The end of the outer loop of \<open>DoProcess\<close>, under the mutex: the local \<open>flag\<close> and the
  object with \<open>processorActive_\<close> set to it.
\<close>

definition DoProcess_check :: "('p, 'b) ZipLib \<Rightarrow> bool \<times> ('p, 'b) ZipLib" where
  "DoProcess_check z =
     (let flag = (length (requestsQueue z) \<noteq> 0)
      in (flag, z\<lparr>processorActive := flag\<rparr>))"

text \<open>
  \<open>DoCallback\<close>: with a non-empty handle the function is called with the exception for the
  status and the bytes of the Blob. (What the JavaScript function does is not modelled.)
\<close>

definition DoCallback ::
  "('p, 'b) Processor \<Rightarrow> nat option \<Rightarrow> int option \<Rightarrow> 'b \<Rightarrow> 'b Host \<Rightarrow> 'b Host" where
  "DoCallback P cb r out1 h =
     (case cb of
        None \<Rightarrow> h
      | Some f \<Rightarrow> h\<lparr>invoked := invoked h @ [(f, r, BlobBytes P out1)]\<rparr>)"

text \<open>One round of the loop of \<open>DoHandleCallbacks\<close>, for the request popped.\<close>

definition DoHandleCallbacks_round ::
  "('p, 'b) Processor \<Rightarrow> 'b Request \<Rightarrow> ('p, 'b) ZipLib \<times> 'b Host \<Rightarrow> ('p, 'b) ZipLib \<times> 'b Host" where
  "DoHandleCallbacks_round P request zh =
     (case zh of (z, h) \<Rightarrow>
        (z\<lparr>refs := refs z - 1\<rparr>, DoCallback P (callback request) (status request) (outR request) h))"

section \<open>The threads of one instance\<close>

text \<open>
  The constructor \<open>ZipLib()\<close> and the static \<open>New\<close>: with the object allocated
  (\<open>new_ok\<close>), the state is \<open>Data\<close> when \<open>Init\<close> reports no exception and \<open>Error\<close>
  when it does.
\<close>

definition ZipLib_ctor :: "('p, 'b) Processor \<Rightarrow> ('p, 'b) ZipLib" where
  "ZipLib_ctor P =
     \<lparr>stream = \<lparr>processor = PNew P, state = Idle, calls = []\<rparr>,
      requestsQueue = [], processorActive = False, refs = 0\<rparr>"

definition New ::
  "('p, 'b) Processor \<Rightarrow> bool \<Rightarrow> Value list \<Rightarrow> Exception option \<times> ('p, 'b) ZipLib option" where
  "New P new_ok args =
     (if \<not> new_ok then (Some ThrowGentleOom, None)
      else
        let result = ZipLib_ctor P;
            t = Transition Error
        in case PInit P (processor (stream result)) args of (exception, p') \<Rightarrow>
             let st = called (CInit (exception = None)) ((stream result)\<lparr>processor := p'\<rparr>)
             in if exception \<noteq> None then (exception, Some (result\<lparr>stream := leave t st\<rparr>))
                else (None, Some (result\<lparr>stream := leave (alter t Data) st\<rparr>)))"

text \<open>
  \<open>DoProcess\<close> runs on a thread of the pool, the bindings and \<open>DoHandleCallbacks\<close> run on
  the JavaScript thread, and the two mutexes make the sections between lock and unlock
  atomic. So the threads are a transition system whose steps are those sections and the
  code between them.

  A worker is a call of \<open>DoProcess\<close> that \<open>eio_custom\<close> has queued or started; it is at
  the \<open>ReentrantPop\<close> of the inner loop (\<open>AtPop\<close>), in the \<open>switch\<close> with the request
  popped, that is, in \<open>Write\<close>, \<open>Close\<close> or \<open>Destroy\<close> of the object (\<open>AtSwitch\<close>), before
  the push on \<open>callbackQueue_\<close> with the request processed (\<open>AtPush\<close>), or at the lock
  that ends the outer loop (\<open>AtCheck\<close>). The JavaScript thread is outside \<open>PushRequest\<close>
  (\<open>InJS\<close>) or past its unlock with the locals \<open>pushed\<close> and \<open>startProcessing\<close>
  (\<open>InPushRequest\<close>).
\<close>

datatype 'b Worker = AtPop | AtSwitch "'b Request" | AtPush "'b Request" | AtCheck

datatype Control = InJS | InPushRequest bool bool

record ('p, 'b) System =
  inst :: "('p, 'b) ZipLib"
  host :: "'b Host"
  control :: Control
  workers :: "'b Worker list"

text \<open>
  The steps. \<open>Js m args new_ok push_ok\<close> is a call of a prototype method up to the
  unlock in \<open>PushRequest\<close> (or up to its exception), with the outcome of its two
  allocations; \<open>Unlocked\<close> is the rest of \<open>PushRequest\<close>; \<open>Pop i\<close>, \<open>Switch i\<close>,
  \<open>Push i success\<close> and \<open>Check i\<close> are the steps of worker \<open>i\<close>, \<open>success\<close> the outcome
  of the allocation in \<open>callbackQueue_.Push\<close>; \<open>Callback\<close> is one round of
  \<open>DoHandleCallbacks\<close>. A step that is not possible in a state gives \<open>None\<close>.
\<close>

datatype Event =
    Js Method "Value list" bool bool
  | Unlocked
  | Pop nat
  | Switch nat
  | Push nat bool
  | Check nat
  | Callback

definition fire_Js ::
  "('p, 'b) Processor \<Rightarrow> Method \<Rightarrow> Value list \<Rightarrow> bool \<Rightarrow> bool \<Rightarrow> ('p, 'b) System
     \<Rightarrow> ('p, 'b) System option" where
  "fire_Js P m args new_ok push_ok s =
     (case control s of
        InPushRequest pushed startProcessing \<Rightarrow> None
      | InJS \<Rightarrow>
          (case request_of P m new_ok args of
             Inl exception \<Rightarrow> Some s
           | Inr None \<Rightarrow> Some s
           | Inr (Some request) \<Rightarrow>
               (case PushRequest_locked push_ok request (inst s) of
                  ((pushed, startProcessing), z1) \<Rightarrow>
                    Some (s\<lparr>inst := z1, control := InPushRequest pushed startProcessing\<rparr>))))"

definition fire_Unlocked :: "('p, 'b) System \<Rightarrow> ('p, 'b) System option" where
  "fire_Unlocked s =
     (case control s of
        InJS \<Rightarrow> None
      | InPushRequest pushed startProcessing \<Rightarrow>
          (case PushRequest_unlocked (pushed, startProcessing) (inst s, host s) of
             ((result, started), (z1, h1)) \<Rightarrow>
               Some (s\<lparr>inst := z1, host := h1, control := InJS,
                       workers := workers s @ (if started then [AtPop] else [])\<rparr>)))"

definition fire_Pop :: "nat \<Rightarrow> ('p, 'b) System \<Rightarrow> ('p, 'b) System option" where
  "fire_Pop i s =
     (if i < length (workers s) then
        (case workers s ! i of
           AtPop \<Rightarrow>
             (case ReentrantPop (requestsQueue (inst s)) of
                (result, request, rest) \<Rightarrow>
                  Some (s\<lparr>inst := (inst s)\<lparr>requestsQueue := rest\<rparr>,
                          workers := (workers s)
                            [i := (case request of
                                     Some r \<Rightarrow> if result then AtSwitch r else AtCheck
                                   | None \<Rightarrow> AtCheck)]\<rparr>))
         | _ \<Rightarrow> None)
      else None)"

definition fire_Switch ::
  "('p, 'b) Processor \<Rightarrow> nat \<Rightarrow> ('p, 'b) System \<Rightarrow> ('p, 'b) System option" where
  "fire_Switch P i s =
     (if i < length (workers s) then
        (case workers s ! i of
           AtSwitch request \<Rightarrow>
             (case DoProcess_switch P (stream (inst s)) request of
                None \<Rightarrow> None
              | Some (request1, st1) \<Rightarrow>
                  Some (s\<lparr>inst := (inst s)\<lparr>stream := st1\<rparr>,
                          workers := (workers s)[i := AtPush request1]\<rparr>))
         | _ \<Rightarrow> None)
      else None)"

definition fire_Push :: "nat \<Rightarrow> bool \<Rightarrow> ('p, 'b) System \<Rightarrow> ('p, 'b) System option" where
  "fire_Push i success s =
     (if i < length (workers s) then
        (case workers s ! i of
           AtPush request \<Rightarrow>
             (case DoProcess_push success request (inst s, host s) of
                (z1, h1) \<Rightarrow>
                  Some (s\<lparr>inst := z1, host := h1, workers := (workers s)[i := AtPop]\<rparr>))
         | _ \<Rightarrow> None)
      else None)"

definition fire_Check :: "nat \<Rightarrow> ('p, 'b) System \<Rightarrow> ('p, 'b) System option" where
  "fire_Check i s =
     (if i < length (workers s) then
        (case workers s ! i of
           AtCheck \<Rightarrow>
             (case DoProcess_check (inst s) of
                (flag, z1) \<Rightarrow>
                  Some (s\<lparr>inst := z1,
                          workers := (if flag then (workers s)[i := AtPop]
                                      else take i (workers s) @ drop (Suc i) (workers s))\<rparr>))
         | _ \<Rightarrow> None)
      else None)"

definition fire_Callback ::
  "('p, 'b) Processor \<Rightarrow> ('p, 'b) System \<Rightarrow> ('p, 'b) System option" where
  "fire_Callback P s =
     (case control s of
        InPushRequest pushed startProcessing \<Rightarrow> None
      | InJS \<Rightarrow>
          (case ReentrantPop (callbackQueue (host s)) of
             (result, request, rest) \<Rightarrow>
               (case request of
                  None \<Rightarrow> None
                | Some r \<Rightarrow>
                    if result then
                      (case DoHandleCallbacks_round P r
                              (inst s, (host s)\<lparr>callbackQueue := rest\<rparr>) of
                         (z1, h1) \<Rightarrow> Some (s\<lparr>inst := z1, host := h1\<rparr>))
                    else None)))"

fun fire :: "('p, 'b) Processor \<Rightarrow> Event \<Rightarrow> ('p, 'b) System \<Rightarrow> ('p, 'b) System option" where
  "fire P (Js m args new_ok push_ok) s = fire_Js P m args new_ok push_ok s"
| "fire P Unlocked s = fire_Unlocked s"
| "fire P (Pop i) s = fire_Pop i s"
| "fire P (Switch i) s = fire_Switch P i s"
| "fire P (Push i success) s = fire_Push i success s"
| "fire P (Check i) s = fire_Check i s"
| "fire P Callback s = fire_Callback P s"

text \<open>A run: the steps of a list, one after the other, from a state.\<close>

fun run :: "('p, 'b) Processor \<Rightarrow> Event list \<Rightarrow> ('p, 'b) System \<Rightarrow> ('p, 'b) System option" where
  "run P [] s = Some s"
| "run P (e # es) s = (case fire P e s of None \<Rightarrow> None | Some s1 \<Rightarrow> run P es s1)"

text \<open>
  The process around a new object: nothing on \<open>callbackQueue_\<close>, no callback made, the
  JavaScript thread outside \<open>PushRequest\<close>, no \<open>DoProcess\<close> queued.
\<close>

definition boot :: "('p, 'b) ZipLib \<Rightarrow> ('p, 'b) System" where
  "boot z =
     \<lparr>inst = z, host = \<lparr>callbackQueue = [], ev_refs = 0, invoked = []\<rparr>,
      control = InJS, workers = []\<rparr>"

text \<open>The requests that the calls in a list of steps have put on \<open>requestsQueue_\<close>.\<close>

fun accepted :: "('p, 'b) Processor \<Rightarrow> Event list \<Rightarrow> 'b Request list" where
  "accepted P [] = []"
| "accepted P (Js m args new_ok push_ok # es) =
     (case request_of P m new_ok args of
        Inr (Some request) \<Rightarrow> (if push_ok then [request] else []) @ accepted P es
      | _ \<Rightarrow> accepted P es)"
| "accepted P (e # es) = accepted P es"

section \<open>What the claims say of the loops\<close>

text \<open>
  The claim on \<open>Finish\<close>, as a reading of the calls it makes: every round asks the Blob
  for 128 bytes and, when it gets them, calls \<open>Finish\<close> of the Processor once; a refused
  growth ends the calls with the memory error, an error of the Processor ends them with
  that error, end of stream ends them with the status Ok, and any other answer is followed
  by one more round. The result is the status the claim gives, \<open>None\<close> for a list of
  calls that the claim does not allow.
\<close>

fun Finish_spec :: "('p, 'b) Processor \<Rightarrow> Call list \<Rightarrow> int option" where
  "Finish_spec P [CGrowBy n ok] = (if n = 128 \<and> \<not> ok then Some (StatusMemoryError P) else None)"
| "Finish_spec P (CGrowBy n ok # CFinish r # tr) =
     (if n = 128 \<and> ok then
        (if IsError P r then (if tr = [] then Some r else None)
         else if r \<noteq> StatusEndOfStream P then Finish_spec P tr
         else (if tr = [] then Some (StatusOk P) else None))
      else None)"
| "Finish_spec P tr = None"

text \<open>
  The claim on \<open>Write\<close> in the same way, for the length \<open>n\<close> of the input that is left:
  every round asks the Blob for \<open>n + 1\<close> bytes and then hands the Processor the \<open>n\<close> bytes
  left; the result is the status returned and the state the object is left in.
\<close>

fun Write_spec :: "('p, 'b) Processor \<Rightarrow> int \<Rightarrow> Call list \<Rightarrow> (int \<times> State) option" where
  "Write_spec P n [CGrowBy g ok] =
     (if g = n + 1 \<and> \<not> ok then Some (StatusMemoryError P, Error) else None)"
| "Write_spec P n (CGrowBy g ok # CWrite l r l' # tr) =
     (if g = n + 1 \<and> ok \<and> l = n then
        (if IsError P r then (if tr = [] then Some (r, Error) else None)
         else if r = StatusEndOfStream P then (if tr = [] then Some (r, Eos) else None)
         else if l' > 0 then Write_spec P l' tr
         else (if tr = [] then Some (StatusOk P, Data) else None))
      else None)"
| "Write_spec P n tr = None"


text \<open>What a returned \<open>Finish\<close> and a returned loop of \<open>Write\<close> have done to the stream.\<close>

definition Finish_post ::
  "('p, 'b) Processor \<Rightarrow> 'p Stream \<Rightarrow> ((int \<times> 'b) \<times> 'p Stream) \<Rightarrow> bool" where
  "Finish_post P z y =
     (\<exists>tr. calls (snd y) = calls z @ tr \<and> Finish_spec P tr = Some (fst (fst y))
        \<and> state (snd y) = state z)"


section \<open>Two Processors to run the model on\<close>

text \<open>
  The Processor of the scenario in the spec, a "pass-through (identity) adapter configured
  with no transformation" (no Processor is among the sources): \<open>Write\<close> appends the
  bytes it is handed to the Blob and leaves nothing of the input, \<open>Finish\<close> answers end
  of stream at once, the Blob is its bytes and can always grow. The status codes are
  those of zlib.
\<close>

definition PassThrough :: "(unit, string) Processor" where
  "PassThrough =
     \<lparr>StatusOk = 0, StatusSequenceError = - 2, StatusMemoryError = - 4, StatusEndOfStream = 1,
      IsError = (\<lambda>r. r < 0),
      GrowBy = (\<lambda>b n. (True, b)), BlobNew = [], BlobBytes = (\<lambda>b. b),
      PNew = (), PInit = (\<lambda>p args. (None, p)),
      PWrite = (\<lambda>p d n b. (0, 0, p, b @ take (nat (sint n)) (drop (nat (snd d)) (fst d)))),
      PFinish = (\<lambda>p b. (1, p, b)),
      PDestroy = (\<lambda>p. p)\<rparr>"

text \<open>
  A Processor for examples, which answers from a script: its state is the list of the
  statuses it has still to give. \<open>Write\<close> takes one byte of the input at a time and
  copies it, \<open>Finish\<close> ends the stream when the script is used up. Its Blob carries the
  answers the allocator has still to give to \<open>GrowBy\<close>.
\<close>

definition Scripted :: "(int list, string \<times> bool list) Processor" where
  "Scripted =
     \<lparr>StatusOk = 0, StatusSequenceError = - 2, StatusMemoryError = - 4, StatusEndOfStream = 1,
      IsError = (\<lambda>r. r < 0),
      GrowBy = (\<lambda>b n. case snd b of [] \<Rightarrow> (True, b) | ok # rest \<Rightarrow> (ok, (fst b, rest))),
      BlobNew = ([], []), BlobBytes = fst,
      PNew = [], PInit = (\<lambda>p args. (None, p)),
      PWrite = (\<lambda>p d n b. (case p of [] \<Rightarrow> 0 | r # rest \<Rightarrow> r, n - 1, tl p,
                              (fst b @ take 1 (drop (nat (snd d)) (fst d)), snd b))),
      PFinish = (\<lambda>p b. case p of [] \<Rightarrow> (1, [], b) | r # rest \<Rightarrow> (r, rest, b)),
      PDestroy = (\<lambda>p. [])\<rparr>"

section \<open>What the claims say of the threads\<close>

text \<open>
  Single flight. \<open>starting\<close> counts the call of \<open>DoProcess\<close> that the JavaScript thread
  is about to hand to \<open>eio_custom\<close>. The invariant: the calls of \<open>DoProcess\<close> queued,
  running or about to be queued are one when \<open>processorActive_\<close> is set and none when it
  is not; and the flag is set whenever the queue holds a request.
\<close>

definition starting :: "Control \<Rightarrow> nat" where
  "starting c =
     (case c of
        InJS \<Rightarrow> 0
      | InPushRequest pushed startProcessing \<Rightarrow> if pushed \<and> startProcessing then 1 else 0)"

definition single_flight :: "('p, 'b) System \<Rightarrow> bool" where
  "single_flight s =
     (length (workers s) + starting (control s) = (if processorActive (inst s) then 1 else 0)
      \<and> (requestsQueue (inst s) \<noteq> [] \<longrightarrow> processorActive (inst s)))"

text \<open>
  Submission order. \<open>serve\<close> is what one thread would do with a list of requests, the
  \<open>switch\<close> of \<open>DoProcess\<close> on one after the other: the requests as completed and the
  stream after them. \<open>callbacks\<close> are the calls that \<open>DoCallback\<close> makes for a list of
  completed requests. In a state of the threads, \<open>unserved\<close> are the requests accepted and
  not yet processed (the one a worker holds in the \<open>switch\<close>, then the queue) and
  \<open>completed\<close> are those processed and not yet called back (\<open>callbackQueue_\<close>, then the
  one a worker is about to push). \<open>in_order\<close> says, of the list \<open>A\<close> of all requests
  accepted so far: the stream is where \<open>serve\<close> leaves it after the requests of \<open>A\<close> that
  are no longer unserved, and the callbacks made, followed by those due for the completed
  requests, are the callbacks of the requests so served.
\<close>

fun serve ::
  "('p, 'b) Processor \<Rightarrow> 'p Stream \<Rightarrow> 'b Request list \<Rightarrow> ('b Request list \<times> 'p Stream) option" where
  "serve P st [] = Some ([], st)"
| "serve P st (request # requests) =
     (case DoProcess_switch P st request of
        None \<Rightarrow> None
      | Some (request1, st1) \<Rightarrow>
          (case serve P st1 requests of
             None \<Rightarrow> None
           | Some (served, st2) \<Rightarrow> Some (request1 # served, st2)))"

fun callbacks :: "('p, 'b) Processor \<Rightarrow> 'b Request list \<Rightarrow> (nat \<times> int option \<times> string) list" where
  "callbacks P [] = []"
| "callbacks P (r # rs) =
     (case callback r of
        None \<Rightarrow> callbacks P rs
      | Some f \<Rightarrow> (f, status r, BlobBytes P (outR r)) # callbacks P rs)"

fun switching :: "'b Worker \<Rightarrow> 'b Request list" where
  "switching (AtSwitch r) = [r]"
| "switching w = []"

fun pushing :: "'b Worker \<Rightarrow> 'b Request list" where
  "pushing (AtPush r) = [r]"
| "pushing w = []"

definition unserved :: "('p, 'b) System \<Rightarrow> 'b Request list" where
  "unserved s = concat (map switching (workers s)) @ requestsQueue (inst s)"

definition completed :: "('p, 'b) System \<Rightarrow> 'b Request list" where
  "completed s = callbackQueue (host s) @ concat (map pushing (workers s))"

definition in_order ::
  "('p, 'b) Processor \<Rightarrow> 'p Stream \<Rightarrow> 'b Request list \<Rightarrow> ('p, 'b) System \<Rightarrow> bool" where
  "in_order P st0 A s =
     (\<exists>A1 D. A = A1 @ unserved s \<and> serve P st0 A1 = Some (D, stream (inst s))
        \<and> invoked (host s) @ callbacks P (completed s) = callbacks P D)"

fun no_failed_push :: "Event \<Rightarrow> bool" where
  "no_failed_push (Push i success) = success"
| "no_failed_push e = True"

text \<open>
  \<open>is_Js\<close> tells the calls from JavaScript from the other steps. A state is quiescent
  when the JavaScript thread is outside \<open>PushRequest\<close>, no \<open>DoProcess\<close> is queued or
  running and both queues are empty. \<open>steps_left\<close> bounds the steps other than calls from
  JavaScript that can still be made.
\<close>

fun is_Js :: "Event \<Rightarrow> bool" where
  "is_Js (Js m args new_ok push_ok) = True"
| "is_Js e = False"

definition quiescent :: "('p, 'b) System \<Rightarrow> bool" where
  "quiescent s =
     (control s = InJS \<and> workers s = [] \<and> requestsQueue (inst s) = []
      \<and> callbackQueue (host s) = [])"

fun worker_steps :: "bool \<Rightarrow> 'b Worker \<Rightarrow> nat" where
  "worker_steps drained AtPop = 3"
| "worker_steps drained (AtSwitch r) = 6"
| "worker_steps drained (AtPush r) = 5"
| "worker_steps drained AtCheck = (if drained then 2 else 4)"

fun control_steps :: "Control \<Rightarrow> nat" where
  "control_steps InJS = 0"
| "control_steps (InPushRequest pushed startProcessing) =
     (if pushed \<and> startProcessing then 5 else 1)"

definition steps_left :: "('p, 'b) System \<Rightarrow> nat" where
  "steps_left s =
     7 * length (requestsQueue (inst s)) + length (callbackQueue (host s))
     + control_steps (control s)
     + sum_list (map (worker_steps (requestsQueue (inst s) = [])) (workers s))"

text \<open>
  The scenario of the spec: \<open>write("AB", f1)\<close>, \<open>write("CD", f2)\<close>, \<open>close(f3)\<close>, every
  allocation made; and one of its runs, in which the second write comes while the
  worker has the first in hand, and the worker has ended before the close, which starts
  another.
\<close>

definition scenario :: "Event list" where
  "scenario =
     [Js MWrite [BufferObject ''AB'', Function 1] True True,
      Js MWrite [BufferObject ''CD'', Function 2] True True,
      Js MClose [Function 3] True True]"

definition scenario_run :: "Event list" where
  "scenario_run =
     [Js MWrite [BufferObject ''AB'', Function 1] True True, Unlocked, Pop 0,
      Js MWrite [BufferObject ''CD'', Function 2] True True, Switch 0, Unlocked,
      Push 0 True, Callback, Pop 0, Switch 0, Push 0 True, Pop 0, Check 0,
      Js MClose [Function 3] True True, Unlocked, Callback, Pop 0, Switch 0, Push 0 True,
      Pop 0, Check 0, Callback]"

section \<open>The loops\<close>

lemma ReentrantPop_eq:
  "ReentrantPop q =
     (case q of [] \<Rightarrow> (False, None, []) | request # rest \<Rightarrow> (True, Some request, rest))"
  by (simp add: ReentrantPop_def Queue_Pop_def Let_def split: list.splits)

lemma Finish_partial:
  assumes "Finish P z out = Some y"
  shows "Finish_post P z y"
  apply (rule Finish.raw_induct[where Pa="\<lambda>x y. Finish_post (fst (fst x)) (snd (fst x)) y" and P=P and z=z and out=out and y=y,
        unfolded fst_conv snd_conv, OF _ assms])
  subgoal premises prems for F P z out y
  proof -
    note IH = prems(1) and body = prems(2)
    obtain grown out1 where g: "GrowBy P out 128 = (grown, out1)" by (cases "GrowBy P out 128")
    show "Finish_post P z y"
    proof (cases grown)
      case False
      with body g have "y = ((StatusMemoryError P, out1), called (CGrowBy 128 False) z)" by (simp add: Let_def)
      then show ?thesis by (simp add: called_def Finish_post_def)
    next
      case True
      obtain ret p' out2 where f: "PFinish P (processor z) out1 = (ret, p', out2)" by (cases "PFinish P (processor z) out1")
      let ?z2 = "called (CFinish ret) ((called (CGrowBy 128 True) z)\<lparr>processor := p'\<rparr>)"
      consider (err) "IsError P ret" | (more) "\<not> IsError P ret" "ret \<noteq> StatusEndOfStream P" | (eos) "\<not> IsError P ret" "ret = StatusEndOfStream P" by blast
      then show ?thesis
      proof cases
        case err
        with body g f True have "y = ((ret, out2), ?z2)" by (simp add: Let_def called_def)
        with err show ?thesis by (simp add: called_def Finish_post_def)
      next
        case more
        with body g f True have "F P ?z2 out2 = Some y" by (simp add: Let_def called_def)
        from IH[OF this] obtain tr where "calls (snd y) = calls ?z2 @ tr"
          "Finish_spec P tr = Some (fst (fst y))" "state (snd y) = state ?z2"
          unfolding Finish_post_def by blast
        with more show ?thesis by (simp add: called_def Finish_post_def)
      next
        case eos
        with body g f True have "y = ((StatusOk P, out2), ?z2)" by (simp add: Let_def called_def)
        with eos show ?thesis by (simp add: called_def Finish_post_def)
      qed
    qed
  qed
  done






lemma Write_loop_Data_Ok:
  assumes "Write_loop P t d z n out = Some y"
  shows "t = Transition Error \<longrightarrow> state z = Data \<longrightarrow> state (snd y) = Data
           \<longrightarrow> fst (fst y) = StatusOk P"
  apply (rule Write_loop.raw_induct[where Pa="\<lambda>x y.
             snd (fst (fst (fst (fst x)))) = Transition Error \<longrightarrow> state (snd (fst (fst x))) = Data
             \<longrightarrow> state (snd y) = Data \<longrightarrow> fst (fst y) = StatusOk (fst (fst (fst (fst (fst x)))))"
          and P=P and t=t and data=d and z=z and dataLength=n and out=out and y=y,
        unfolded fst_conv snd_conv, OF _ assms])
  subgoal premises prems for F P t d z n out y
  proof (intro impI)
    assume t: "t = Transition Error" and st: "state z = Data" and e: "state (snd y) = Data"
    note IH = prems(1) and body = prems(2)
    show "fst (fst y) = StatusOk P"
    proof (cases "sint n > 0")
      case False
      with body show ?thesis by auto
    next
      case pos: True
      obtain grown out1 where g: "GrowBy P out (sint (n + 1)) = (grown, out1)"
        by (cases "GrowBy P out (sint (n + 1))")
      obtain ret n' p' out2
        where f: "PWrite P (processor z) (ptr_sub d (sint n)) n out1 = (ret, n', p', out2)"
        by (cases "PWrite P (processor z) (ptr_sub d (sint n)) n out1")
      let ?z2 = "called (CWrite (sint n) ret (sint n'))
                   ((called (CGrowBy (sint (n + 1)) True) z)\<lparr>processor := p'\<rparr>)"
      show ?thesis
      proof (cases "grown \<and> \<not> IsError P ret \<and> ret \<noteq> StatusEndOfStream P")
        case True
        with body g f pos have "F P t d ?z2 n' out2 = Some y"
          by (simp add: Let_def called_def)
        from IH[OF this] t st e show ?thesis by (simp add: called_def)
      next
        case False
        with body g f pos t e show ?thesis
          by (auto simp add: Let_def called_def leave_def Transition_def alter_def
              split: if_splits)
      qed
    qed
  qed
  done

lemma Finish_terminates:
  assumes "\<And>p b. case PFinish P p b of (r, p', b') \<Rightarrow> \<not> IsError P r \<and> r \<noteq> StatusEndOfStream P \<longrightarrow> m p' < (m p :: nat)"
  shows "Finish P z out \<noteq> None"
proof (induction "m (processor z)" arbitrary: z out rule: less_induct)
  case less
  obtain grown out1 where g: "GrowBy P out 128 = (grown, out1)" by (cases "GrowBy P out 128")
  obtain ret p' out2 where f: "PFinish P (processor z) out1 = (ret, p', out2)" by (cases "PFinish P (processor z) out1")
  let ?z2 = "called (CFinish ret) ((called (CGrowBy 128 grown) z)\<lparr>processor := p'\<rparr>)"
  show ?case
  proof (cases "grown \<and> \<not> IsError P ret \<and> ret \<noteq> StatusEndOfStream P")
    case True
    with assms[where p="processor z" and b=out1] f have "m (processor ?z2) < m (processor z)" by (simp add: called_def)
    from less[OF this] have "Finish P ?z2 out2 \<noteq> None" .
    with True g f show ?thesis by (subst Finish.simps) (simp add: Let_def called_def)
  next
    case False
    with g f show ?thesis by (subst Finish.simps) (auto simp add: Let_def called_def)
  qed
qed


text \<open>
  At \<open>INT_MAX\<close> the sum \<open>dataLength + 1\<close> has wrapped around, and \<open>GrowBy\<close> is handed
  \<open>INT_MIN\<close>: the bound in what is proved of the loop is needed.
\<close>

lemma Write_at_INT_MAX:
  "Write Scripted \<lparr>processor = [], state = Data, calls = []\<rparr> ([], 0) 2147483647 ([], [False])
     = Some ((- 4, ([], [])),
        \<lparr>processor = [], state = Error, calls = [CGrowBy (- 2147483648) False]\<rparr>)"
  by (simp add: Write_def Write_loop.simps Scripted_def Let_def called_def leave_def
      Transition_def ptr_add_def ptr_sub_def)

lemma Write_spec_Data: "Write_spec P n tr = Some (ret, Data) \<Longrightarrow> ret = StatusOk P"
  by (induction P n tr rule: Write_spec.induct) (auto split: if_splits)

lemma Write_error_leaves_Data:
  assumes "Write P z d n out = Some ((ret, out1), z1)" and "ret \<noteq> StatusOk P"
  shows "state z1 \<noteq> Data"
proof (cases "state z = Data")
  case False
  with assms(1) show ?thesis by (simp add: Write_def)
next
  case True
  with assms(1)
  have l: "Write_loop P (Transition Error) (ptr_add d (sint n)) z n out = Some ((ret, out1), z1)"
    by (simp add: Write_def Let_def)
  from Write_loop_Data_Ok [OF l] True assms(2) show ?thesis by auto
qed

section \<open>The threads: single flight and submission order\<close>

lemma single_flight_boot: "\<not> processorActive z \<Longrightarrow> requestsQueue z = [] \<Longrightarrow> single_flight (boot z)"
  by (simp add: single_flight_def boot_def starting_def)

lemma single_flight_Js:
  assumes "single_flight s" and "fire_Js P m args new_ok push_ok s = Some s1"
  shows "single_flight s1"
  using assms
  by (auto simp add: single_flight_def fire_Js_def PushRequest_locked_def Queue_Push_def Let_def starting_def
      split: Control.splits sum.splits option.splits if_splits)

lemma single_flight_Unlocked:
  assumes "single_flight s" and "fire_Unlocked s = Some s1"
  shows "single_flight s1"
  using assms
  by (auto simp add: single_flight_def fire_Unlocked_def PushRequest_unlocked_def starting_def
      split: Control.splits if_splits)

lemma single_flight_Pop:
  assumes "single_flight s" and "fire_Pop i s = Some s1"
  shows "single_flight s1"
  using assms
  by (auto simp add: single_flight_def fire_Pop_def ReentrantPop_eq
      split: Worker.splits if_splits list.splits)

lemma single_flight_Switch:
  assumes "single_flight s" and "fire_Switch P i s = Some s1"
  shows "single_flight s1"
  using assms
  by (auto simp add: single_flight_def fire_Switch_def
      split: Worker.splits if_splits option.splits)

lemma single_flight_Push:
  assumes "single_flight s" and "fire_Push i success s = Some s1"
  shows "single_flight s1"
  using assms
  by (auto simp add: single_flight_def fire_Push_def DoProcess_push_def Queue_Push_def Let_def
      split: Worker.splits if_splits)

lemma single_flight_Check:
  assumes "single_flight s" and "fire_Check i s = Some s1"
  shows "single_flight s1"
  using assms
  by (auto simp add: single_flight_def fire_Check_def DoProcess_check_def Let_def starting_def
      split: Worker.splits if_splits Control.splits)

lemma single_flight_Callback:
  assumes "single_flight s" and "fire_Callback P s = Some s1"
  shows "single_flight s1"
  using assms
  by (auto simp add: single_flight_def fire_Callback_def DoHandleCallbacks_round_def
      ReentrantPop_eq split: Control.splits if_splits option.splits list.splits)

lemma single_flight_fire:
  assumes "single_flight s" and "fire P e s = Some s1"
  shows "single_flight s1"
  using assms
  by (cases e)
    (auto intro: single_flight_Js single_flight_Unlocked single_flight_Pop single_flight_Switch
      single_flight_Push single_flight_Check single_flight_Callback)

lemma single_flight_run:
  assumes "run P es s = Some s1" and "single_flight s"
  shows "single_flight s1"
  using assms
proof (induction es arbitrary: s)
  case Nil
  then show ?case by simp
next
  case (Cons e es)
  then obtain s2 where "fire P e s = Some s2" and "run P es s2 = Some s1"
    by (auto split: option.splits)
  with Cons.IH Cons.prems(2) show ?case
    by (blast intro: single_flight_fire)
qed

lemma callbacks_append: "callbacks P (xs @ ys) = callbacks P xs @ callbacks P ys"
  by (induction xs) (auto split: option.splits)

lemma serve_snoc:
  "serve P st (rs @ [r]) =
     (case serve P st rs of
        None \<Rightarrow> None
      | Some (served, st1) \<Rightarrow>
          (case DoProcess_switch P st1 r of
             None \<Rightarrow> None
           | Some (r1, st2) \<Rightarrow> Some (served @ [r1], st2)))"
  by (induction rs arbitrary: st) (auto split: option.splits)

lemma in_order_boot: "in_order P (stream z) [] (boot (z\<lparr>requestsQueue := []\<rparr>))"
  by (simp add: in_order_def boot_def unserved_def completed_def)

lemma one_worker:
  assumes "single_flight s" and "i < length (workers s)"
  shows "i = 0 \<and> workers s = [workers s ! 0] \<and> control s \<noteq> InPushRequest True True"
proof -
  from assms have "length (workers s) = 1" and "starting (control s) = 0"
    by (auto simp add: single_flight_def split: if_splits)
  then show ?thesis using assms(2)
    by (cases "workers s") (auto simp add: starting_def)
qed

lemma in_order_Js:
  assumes "in_order P st0 A s" and "fire_Js P m args new_ok push_ok s = Some s1"
  shows "in_order P st0 (A @ accepted P [Js m args new_ok push_ok]) s1"
proof (cases "request_of P m new_ok args")
  case (Inl e)
  with assms show ?thesis by (auto simp add: fire_Js_def split: Control.splits)
next
  case (Inr ro)
  show ?thesis
  proof (cases ro)
    case None
    with Inr assms show ?thesis by (auto simp add: fire_Js_def split: Control.splits)
  next
    case (Some r)
    from assms(1) obtain A1 D where *: "A = A1 @ unserved s"
      "serve P st0 A1 = Some (D, stream (inst s))"
      "invoked (host s) @ callbacks P (completed s) = callbacks P D"
      unfolding in_order_def by blast
    from assms(2) Inr Some have c: "control s = InJS" and
      s1: "s1 = s\<lparr>inst := snd (PushRequest_locked push_ok r (inst s)),
                  control := InPushRequest (fst (fst (PushRequest_locked push_ok r (inst s))))
                     (snd (fst (PushRequest_locked push_ok r (inst s))))\<rparr>"
      by (auto simp add: fire_Js_def split: Control.splits prod.splits)
    have u: "unserved s1 = unserved s @ (if push_ok then [r] else [])"
      and k: "completed s1 = completed s" "host s1 = host s" "stream (inst s1) = stream (inst s)"
      unfolding s1 by (simp_all add: unserved_def completed_def PushRequest_locked_def Queue_Push_def Let_def)
    from * u k Inr Some show ?thesis
      unfolding in_order_def by (intro exI[of _ A1] exI[of _ D]) simp
  qed
qed

lemma in_order_Unlocked:
  assumes "in_order P st0 A s" and "fire_Unlocked s = Some s1"
  shows "in_order P st0 A s1"
  using assms
  by (auto simp add: in_order_def fire_Unlocked_def PushRequest_unlocked_def unserved_def
      completed_def split: Control.splits if_splits)

lemma in_order_Pop:
  assumes "in_order P st0 A s" and "single_flight s" and "fire_Pop i s = Some s1"
  shows "in_order P st0 A s1"
proof -
  from assms(3) have i: "i < length (workers s)" and w: "workers s ! i = AtPop"
    by (auto simp add: fire_Pop_def split: if_splits Worker.splits)
  from one_worker [OF assms(2) i] w have ws: "i = 0" "workers s = [AtPop]" by auto
  from assms(3) ws have "unserved s1 = unserved s \<and> completed s1 = completed s
      \<and> host s1 = host s \<and> stream (inst s1) = stream (inst s)"
    by (auto simp add: fire_Pop_def ReentrantPop_eq unserved_def completed_def
        split: list.splits)
  with assms(1) show ?thesis by (simp add: in_order_def)
qed

lemma in_order_Switch:
  assumes "in_order P st0 A s" and "single_flight s" and "fire_Switch P i s = Some s1"
  shows "in_order P st0 A s1"
proof -
  from assms(3) obtain r where i: "i < length (workers s)" and w: "workers s ! i = AtSwitch r"
    by (auto simp add: fire_Switch_def split: if_splits Worker.splits)
  from one_worker [OF assms(2) i] w have ws: "i = 0" "workers s = [AtSwitch r]" by auto
  from assms(3) ws obtain r1 st1 where d: "DoProcess_switch P (stream (inst s)) r = Some (r1, st1)"
    and s1: "s1 = s\<lparr>inst := (inst s)\<lparr>stream := st1\<rparr>, workers := [AtPush r1]\<rparr>"
    by (auto simp add: fire_Switch_def split: option.splits)
  from assms(1) obtain A1 D where *: "A = A1 @ unserved s"
    "serve P st0 A1 = Some (D, stream (inst s))"
    "invoked (host s) @ callbacks P (completed s) = callbacks P D"
    unfolding in_order_def by blast
  have u: "unserved s = r # unserved s1" and c: "completed s1 = completed s @ [r1]"
    and k: "host s1 = host s" "stream (inst s1) = st1"
    using ws unfolding s1 by (simp_all add: unserved_def completed_def)
  have "serve P st0 (A1 @ [r]) = Some (D @ [r1], st1)"
    using *(2) d by (simp add: serve_snoc)
  moreover have "A = (A1 @ [r]) @ unserved s1" using *(1) u by simp
  moreover have "invoked (host s1) @ callbacks P (completed s1) = callbacks P (D @ [r1])"
    using *(3) c k by (simp add: callbacks_append)
  ultimately show ?thesis unfolding in_order_def using k by metis
qed

lemma in_order_Push:
  assumes "in_order P st0 A s" and "single_flight s" and "fire_Push i True s = Some s1"
  shows "in_order P st0 A s1"
proof -
  from assms(3) obtain r where i: "i < length (workers s)" and w: "workers s ! i = AtPush r"
    by (auto simp add: fire_Push_def split: if_splits Worker.splits)
  from one_worker [OF assms(2) i] w have ws: "i = 0" "workers s = [AtPush r]" by auto
  from assms(3) ws have "unserved s1 = unserved s \<and> completed s1 = completed s
      \<and> invoked (host s1) = invoked (host s) \<and> stream (inst s1) = stream (inst s)"
    by (auto simp add: fire_Push_def DoProcess_push_def Queue_Push_def Let_def unserved_def completed_def)
  with assms(1) show ?thesis by (simp add: in_order_def)
qed

lemma in_order_Check:
  assumes "in_order P st0 A s" and "single_flight s" and "fire_Check i s = Some s1"
  shows "in_order P st0 A s1"
proof -
  from assms(3) have i: "i < length (workers s)" and w: "workers s ! i = AtCheck"
    by (auto simp add: fire_Check_def split: if_splits Worker.splits)
  from one_worker [OF assms(2) i] w have ws: "i = 0" "workers s = [AtCheck]" by auto
  from assms(3) ws have "unserved s1 = unserved s \<and> completed s1 = completed s
      \<and> host s1 = host s \<and> stream (inst s1) = stream (inst s)"
    by (auto simp add: fire_Check_def DoProcess_check_def Let_def unserved_def completed_def
        split: if_splits)
  with assms(1) show ?thesis by (simp add: in_order_def)
qed

lemma in_order_Callback:
  assumes "in_order P st0 A s" and "fire_Callback P s = Some s1"
  shows "in_order P st0 A s1"
proof -
  from assms(2) obtain r rest where q: "callbackQueue (host s) = r # rest"
    and s1: "s1 = s\<lparr>inst := (inst s)\<lparr>refs := refs (inst s) - 1\<rparr>,
        host := DoCallback P (callback r) (status r) (outR r) ((host s)\<lparr>callbackQueue := rest\<rparr>)\<rparr>"
    by (auto simp add: fire_Callback_def ReentrantPop_eq DoHandleCallbacks_round_def
        split: Control.splits list.splits if_splits)
  have "invoked (host s1) @ callbacks P (completed s1)
        = invoked (host s) @ callbacks P (completed s)"
    unfolding s1 using q
    by (simp add: completed_def DoCallback_def callbacks_append split: option.splits)
  moreover have "unserved s1 = unserved s" "stream (inst s1) = stream (inst s)"
    unfolding s1 by (simp_all add: unserved_def)
  ultimately show ?thesis using assms(1) by (simp add: in_order_def)
qed

lemma in_order_fire:
  assumes "in_order P st0 A s" and "single_flight s" and "fire P e s = Some s1"
    and "no_failed_push e"
  shows "in_order P st0 (A @ accepted P [e]) s1"
proof (cases e)
  case (Js m args new_ok push_ok)
  with assms show ?thesis using in_order_Js by fastforce
next
  case (Push i success)
  with assms show ?thesis using in_order_Push by fastforce
qed (use assms in_order_Unlocked in_order_Pop in_order_Switch in_order_Check in_order_Callback
      in \<open>fastforce+\<close>)

lemma accepted_Cons: "accepted P (e # es) = accepted P [e] @ accepted P es"
  by (cases e) (auto split: sum.splits option.splits)

lemma in_order_run:
  assumes "run P es s = Some s1" and "in_order P st0 A s" and "single_flight s"
    and "list_all no_failed_push es"
  shows "in_order P st0 (A @ accepted P es) s1"
  using assms
proof (induction es arbitrary: s A)
  case Nil
  then show ?case by simp
next
  case (Cons e es)
  then obtain s2 where f: "fire P e s = Some s2" and r: "run P es s2 = Some s1"
    by (auto split: option.splits)
  from Cons.prems f have i: "in_order P st0 (A @ accepted P [e]) s2" and g: "single_flight s2"
    by (auto intro: in_order_fire single_flight_fire)
  from Cons.prems(4) have "list_all no_failed_push es" by simp
  from Cons.IH [OF r i g this]
  have "in_order P st0 ((A @ accepted P [e]) @ accepted P es) s1" .
  then show ?case by (subst accepted_Cons) simp
qed

lemma steps_left_fire:
  assumes "single_flight s" and "fire P e s = Some s1"
  shows "if is_Js e then steps_left s1 \<le> steps_left s + 14 else steps_left s1 < steps_left s"
proof (cases e)
  case (Js m args new_ok push_ok)
  have "length (workers s) \<le> 1" using assms(1) by (auto simp add: single_flight_def split: if_splits)
  then have w: "workers s = [] \<or> (\<exists>w. workers s = [w])"
    by (cases "workers s") auto
  have "sum_list (map (worker_steps b) (workers s)) \<le> sum_list (map (worker_steps c) (workers s)) + 2" for b c
    using w by (auto, case_tac w, auto)
  note this [of False "requestsQueue (inst s) = []"]
  with Js assms(2) show ?thesis
    by (auto simp add: fire_Js_def steps_left_def PushRequest_locked_def Queue_Push_def Let_def
        split: Control.splits sum.splits option.splits if_splits)
next
  case Unlocked
  with assms(2) show ?thesis
    by (auto simp add: fire_Unlocked_def steps_left_def PushRequest_unlocked_def
        split: Control.splits if_splits)
next
  case (Pop i)
  with assms(2) have i: "i < length (workers s)" and w: "workers s ! i = AtPop"
    by (auto simp add: fire_Pop_def split: if_splits Worker.splits)
  from one_worker [OF assms(1) i] w have ws: "i = 0" "workers s = [AtPop]" by auto
  with Pop assms(2) show ?thesis
    by (auto simp add: fire_Pop_def steps_left_def ReentrantPop_eq split: list.splits)
next
  case (Switch i)
  with assms(2) obtain r where i: "i < length (workers s)" and w: "workers s ! i = AtSwitch r"
    by (auto simp add: fire_Switch_def split: if_splits Worker.splits)
  from one_worker [OF assms(1) i] w have ws: "i = 0" "workers s = [AtSwitch r]" by auto
  with Switch assms(2) show ?thesis
    by (auto simp add: fire_Switch_def steps_left_def split: option.splits)
next
  case (Push i success)
  with assms(2) obtain r where i: "i < length (workers s)" and w: "workers s ! i = AtPush r"
    by (auto simp add: fire_Push_def split: if_splits Worker.splits)
  from one_worker [OF assms(1) i] w have ws: "i = 0" "workers s = [AtPush r]" by auto
  with Push assms(2) show ?thesis
    by (auto simp add: fire_Push_def steps_left_def DoProcess_push_def Queue_Push_def Let_def
        split: if_splits)
next
  case (Check i)
  with assms(2) have i: "i < length (workers s)" and w: "workers s ! i = AtCheck"
    by (auto simp add: fire_Check_def split: if_splits Worker.splits)
  from one_worker [OF assms(1) i] w have ws: "i = 0" "workers s = [AtCheck]" by auto
  with Check assms(2) show ?thesis
    by (auto simp add: fire_Check_def steps_left_def DoProcess_check_def Let_def
        split: if_splits)
next
  case Callback
  with assms(2) show ?thesis
    by (auto simp add: fire_Callback_def steps_left_def ReentrantPop_eq
        DoHandleCallbacks_round_def DoCallback_def
        split: Control.splits list.splits if_splits option.splits)
qed

lemma steps_left_run:
  assumes "run P es s = Some s1" and "single_flight s"
  shows "steps_left s1 + length (filter (\<lambda>e. \<not> is_Js e) es)
           \<le> steps_left s + 14 * length (filter is_Js es)"
  using assms
proof (induction es arbitrary: s)
  case Nil
  then show ?case by simp
next
  case (Cons e es)
  then obtain s2 where f: "fire P e s = Some s2" and r: "run P es s2 = Some s1"
    by (auto split: option.splits)
  from single_flight_fire [OF Cons.prems(2) f] have g: "single_flight s2" .
  from Cons.IH [OF r g] steps_left_fire [OF Cons.prems(2) f]
  show ?case by (auto split: if_splits)
qed

lemma not_stuck:
  assumes "single_flight s" and "\<not> quiescent s"
    and "\<And>r. workers s = [AtSwitch r] \<Longrightarrow> DoProcess_switch P (stream (inst s)) r \<noteq> None"
  shows "\<exists>e. \<not> is_Js e \<and> no_failed_push e \<and> fire P e s \<noteq> None"
proof (cases "control s")
  case (InPushRequest pushed startProcessing)
  then have "fire P Unlocked s \<noteq> None"
    by (simp add: fire_Unlocked_def PushRequest_unlocked_def)
  then show ?thesis by (intro exI[of _ Unlocked]) simp
next
  case InJS
  show ?thesis
  proof (cases "workers s")
    case Nil
    with assms(1) InJS have "requestsQueue (inst s) = []"
      by (auto simp add: single_flight_def starting_def split: if_splits)
    with assms(2) InJS Nil obtain r rest where "callbackQueue (host s) = r # rest"
      by (cases "callbackQueue (host s)") (auto simp add: quiescent_def)
    with InJS have "fire P Callback s \<noteq> None"
      by (simp add: fire_Callback_def ReentrantPop_eq DoHandleCallbacks_round_def)
    then show ?thesis by (intro exI[of _ Callback]) simp
  next
    case (Cons w ws)
    then have i: "0 < length (workers s)" by simp
    from one_worker [OF assms(1) i] Cons have ws: "workers s = [w]" by simp
    show ?thesis
    proof (cases w)
      case AtPop
      with ws have "fire P (Pop 0) s \<noteq> None"
        by (simp add: fire_Pop_def ReentrantPop_eq split: list.splits)
      then show ?thesis by (intro exI[of _ "Pop 0"]) simp
    next
      case (AtSwitch r)
      with ws assms(3) have "fire P (Switch 0) s \<noteq> None"
        by (auto simp add: fire_Switch_def)
      then show ?thesis by (intro exI[of _ "Switch 0"]) simp
    next
      case (AtPush r)
      with ws have "fire P (Push 0 True) s \<noteq> None"
        by (simp add: fire_Push_def DoProcess_push_def Queue_Push_def Let_def)
      then show ?thesis by (intro exI[of _ "Push 0 True"]) simp
    next
      case AtCheck
      with ws have "fire P (Check 0) s \<noteq> None"
        by (simp add: fire_Check_def DoProcess_check_def Let_def)
      then show ?thesis by (intro exI[of _ "Check 0"]) simp
    qed
  qed
qed

lemma serve_append:
  "serve P st (xs @ ys) =
     (case serve P st xs of
        None \<Rightarrow> None
      | Some (D1, st1) \<Rightarrow>
          (case serve P st1 ys of None \<Rightarrow> None | Some (D2, st2) \<Rightarrow> Some (D1 @ D2, st2)))"
  by (induction xs arbitrary: st) (auto split: option.splits)

lemma accepted_filter: "accepted P (filter is_Js es) = accepted P es"
proof (induction es)
  case Nil
  then show ?case by simp
next
  case (Cons e es)
  then show ?case by (cases e) (auto split: sum.splits option.splits)
qed

lemma length_split: "length es = length (filter is_Js es) + length (filter (\<lambda>e. \<not> is_Js e) es)"
  by (induction es) auto

lemma scenario_served:
  "serve PassThrough \<lparr>processor = (), state = Data, calls = [CInit True]\<rparr>
     (accepted PassThrough scenario)
   = Some ([(Request_Write PassThrough (BufferObject ''AB'') (Some 1))
              \<lparr>outR := ''AB'', status := Some 0\<rparr>,
            (Request_Write PassThrough (BufferObject ''CD'') (Some 2))
              \<lparr>outR := ''CD'', status := Some 0\<rparr>,
            (Request_Close PassThrough (Some 3))\<lparr>outR := [], status := Some 0\<rparr>],
           \<lparr>processor = (), state = Destroyed,
            calls = [CInit True, CGrowBy 3 True, CWrite 2 0 0, CGrowBy 3 True, CWrite 2 0 0,
                     CGrowBy 128 True, CFinish 1, CDestroy]\<rparr>)"
  by (simp add: scenario_def Write_request_def Close_request_def arg_def Request_Write_def
      Request_Close_def DoProcess_switch_def Write_def Write_loop.simps Close_def Finish.simps
      Destroy_def PassThrough_def Let_def called_def leave_def Transition_def abort_def
      ptr_add_def ptr_sub_def)

section \<open>The claims on the stream operations\<close>

text \<open>
  C5: \<open>Destroy\<close> leaves the state \<open>Destroyed\<close>; it calls \<open>Destroy\<close> of the Processor once
  when the state was neither \<open>Idle\<close> nor \<open>Destroyed\<close> and not at all otherwise. A second
  \<open>Destroy\<close> changes nothing, so two are one and the Processor is never released twice;
  a \<open>Close\<close> after it returns Ok and changes nothing, and a destroy request after it
  completes with Ok and changes nothing.
\<close>

theorem Destroy_idempotent:
  "state (Destroy P z) = Destroyed
   \<and> calls (Destroy P z) =
       calls z @ (if state z \<noteq> Idle \<and> state z \<noteq> Destroyed then [CDestroy] else [])
   \<and> processor (Destroy P z) =
       (if state z \<noteq> Idle \<and> state z \<noteq> Destroyed then PDestroy P (processor z)
        else processor z)
   \<and> Destroy P (Destroy P z) = Destroy P z
   \<and> Close P (Destroy P z) out = Some ((StatusOk P, out), Destroy P z)
   \<and> DoProcess_switch P (Destroy P z) (Request_Destroy P) =
       Some ((Request_Destroy P)\<lparr>status := Some (StatusOk P)\<rparr>, Destroy P z)"
  by (simp add: Destroy_def Let_def called_def Close_def DoProcess_switch_def
      Request_Destroy_def)

theorem Destroy_idempotent_witness:
  "Destroy Scripted (Destroy Scripted
      \<lparr>processor = [0], state = Eos, calls = []\<rparr>)
   = \<lparr>processor = [], state = Destroyed, calls = [CDestroy]\<rparr>"
  using Destroy_idempotent [of Scripted
      "\<lparr>processor = [0], state = Eos, calls = []\<rparr>" "([], [])"]
  by (simp add: Destroy_def Let_def called_def Scripted_def)

text \<open>
  C1, as the code has it: \<open>Close\<close> in state \<open>Idle\<close> or \<open>Destroyed\<close> returns Ok and leaves
  the stream as it is, the Processor untouched; in state \<open>Data\<close> it runs \<open>Finish\<close>, then
  \<open>Destroy\<close>, and returns the status of \<open>Finish\<close>; in state \<open>Eos\<close> or \<open>Error\<close> it runs
  \<open>Destroy\<close> and returns Ok. From every state but \<open>Idle\<close> a \<open>Close\<close> that returns leaves
  the state \<open>Destroyed\<close>.
\<close>

theorem Close_by_state:
  "(state z = Idle \<or> state z = Destroyed \<longrightarrow> Close P z out = Some ((StatusOk P, out), z))
   \<and> (state z = Data \<longrightarrow>
        Close P z out =
          (case Finish P z out of None \<Rightarrow> None | Some (ro, z1) \<Rightarrow> Some (ro, Destroy P z1)))
   \<and> (state z = Eos \<or> state z = Error \<longrightarrow>
        Close P z out = Some ((StatusOk P, out), Destroy P z))
   \<and> (\<forall>ro z1. state z \<noteq> Idle \<longrightarrow> Close P z out = Some (ro, z1) \<longrightarrow> state z1 = Destroyed)"
proof -
  have a: "state z = Idle \<or> state z = Destroyed \<longrightarrow> Close P z out = Some ((StatusOk P, out), z)"
    by (simp add: Close_def)
  have b: "state z = Data \<longrightarrow>
        Close P z out =
          (case Finish P z out of None \<Rightarrow> None | Some (ro, z1) \<Rightarrow> Some (ro, Destroy P z1))"
    by (simp add: Close_def Let_def leave_def abort_def Transition_def
        split: option.splits prod.splits)
  have c: "state z = Eos \<or> state z = Error \<longrightarrow>
        Close P z out = Some ((StatusOk P, out), Destroy P z)"
    by (auto simp add: Close_def Let_def leave_def abort_def Transition_def)
  have d: "state z1 = Destroyed" if "state z \<noteq> Idle" "Close P z out = Some (ro, z1)" for ro z1
  proof (cases "state z")
    case Data
    with b that(2) obtain z0 where "z1 = Destroy P z0"
      by (auto split: option.splits)
    then show ?thesis by (simp add: Destroy_def Let_def)
  next
    case Idle
    with that(1) show ?thesis by simp
  qed (use a c that(2) in \<open>auto simp add: Destroy_def Let_def\<close>)
  from a b c d show ?thesis by blast
qed

theorem Close_by_state_witness:
  "Close Scripted \<lparr>processor = [0], state = Data, calls = []\<rparr> ([], [])
   = Some ((0, ([], [])),
       \<lparr>processor = [], state = Destroyed,
        calls = [CGrowBy 128 True, CFinish 0, CGrowBy 128 True, CFinish 1, CDestroy]\<rparr>)
   \<and> Close Scripted \<lparr>processor = [0], state = Error, calls = []\<rparr> ([], [])
   = Some ((0, ([], [])), \<lparr>processor = [], state = Destroyed, calls = [CDestroy]\<rparr>)"
  using Close_by_state [of "\<lparr>processor = [0], state = Data, calls = []\<rparr>" Scripted "([], [])"]
    Close_by_state [of "\<lparr>processor = [0], state = Error, calls = []\<rparr>" Scripted "([], [])"]
  by (simp add: Finish.simps Destroy_def Let_def called_def Scripted_def)

text \<open>
  The claim C1 as it is written fails: after a \<open>Write\<close> that the Processor has answered
  with the error -3, which leaves the state \<open>Error\<close>, \<open>Close\<close> returns 0, the status Ok,
  and not -3.
\<close>

theorem Close_after_error_counterexample:
  "Write Scripted
       \<lparr>processor = [- 3], state = Data, calls = []\<rparr>
       (''A'', 0) 1 ([], [])
     = Some ((- 3, (''A'', [])),
        \<lparr>processor = [], state = Error, calls = [CGrowBy 2 True, CWrite 1 (- 3) 0]\<rparr>)
   \<and> Close Scripted
        \<lparr>processor = [], state = Error, calls = [CGrowBy 2 True, CWrite 1 (- 3) 0]\<rparr> ([], [])
     = Some ((0, ([], [])),
        \<lparr>processor = [], state = Destroyed,
         calls = [CGrowBy 2 True, CWrite 1 (- 3) 0, CDestroy]\<rparr>)"
  by (simp add: Write_def Close_def Write_loop.simps Scripted_def Let_def called_def leave_def
      Transition_def abort_def ptr_add_def ptr_sub_def Destroy_def)

text \<open>
  C4: whenever \<open>Finish\<close> returns, the calls it has made are rounds of \<open>GrowBy(128)\<close> and
  \<open>Finish\<close> of the Processor that end as \<open>Finish_spec\<close> says, with the status it says, and
  the state is as before. And \<open>Finish\<close> does return when the Processor cannot go on for
  ever answering neither an error nor end of stream (some measure of its state falls with
  each such answer).
\<close>

theorem Finish_drains:
  "(\<forall>ret out1 z1. Finish P z out = Some ((ret, out1), z1) \<longrightarrow>
      (\<exists>tr. calls z1 = calls z @ tr \<and> Finish_spec P tr = Some ret) \<and> state z1 = state z)
   \<and> ((\<exists>m :: 'p \<Rightarrow> nat. \<forall>p b. case PFinish P p b of (r, p1, b1) \<Rightarrow>
          \<not> IsError P r \<and> r \<noteq> StatusEndOfStream P \<longrightarrow> m p1 < m p)
       \<longrightarrow> Finish P z out \<noteq> None)"
proof (intro conjI allI impI)
  fix ret out1 z1
  assume "Finish P z out = Some ((ret, out1), z1)"
  from Finish_partial [OF this]
  show "\<exists>tr. calls z1 = calls z @ tr \<and> Finish_spec P tr = Some ret" and "state z1 = state z"
    by (auto simp add: Finish_post_def)
next
  assume "\<exists>m :: 'p \<Rightarrow> nat. \<forall>p b. case PFinish P p b of (r, p1, b1) \<Rightarrow>
          \<not> IsError P r \<and> r \<noteq> StatusEndOfStream P \<longrightarrow> m p1 < m p"
  then obtain m :: "'p \<Rightarrow> nat" where "\<forall>p b. case PFinish P p b of (r, p1, b1) \<Rightarrow>
          \<not> IsError P r \<and> r \<noteq> StatusEndOfStream P \<longrightarrow> m p1 < m p" ..
  from this [rule_format] show "Finish P z out \<noteq> None" by (rule Finish_terminates)
qed

theorem Finish_drains_witness:
  "Finish Scripted
       \<lparr>processor = [0, 0], state = Data, calls = []\<rparr>
       ([], [True, True, False])
     = Some ((- 4, ([], [])),
        \<lparr>processor = [], state = Data, calls = [CGrowBy 128 True, CFinish 0, CGrowBy 128 True, CFinish 0, CGrowBy 128 False]\<rparr>)
   \<and> Finish_spec Scripted
        [CGrowBy 128 True, CFinish 0, CGrowBy 128 True, CFinish 0, CGrowBy 128 False]
     = Some (StatusMemoryError Scripted)"
proof -
  let ?z = "\<lparr>processor = [0, 0], state = Data, calls = []\<rparr> :: int list Stream"
  have "\<forall>p b. case PFinish Scripted p b of (r, p1, b1) \<Rightarrow>
          \<not> IsError Scripted r \<and> r \<noteq> StatusEndOfStream Scripted \<longrightarrow> length p1 < length p"
    by (simp add: Scripted_def split: list.splits)
  then have "\<exists>m :: int list \<Rightarrow> nat. \<forall>p b. case PFinish Scripted p b of (r, p1, b1) \<Rightarrow>
          \<not> IsError Scripted r \<and> r \<noteq> StatusEndOfStream Scripted \<longrightarrow> m p1 < m p"
    by blast
  with Finish_drains [of Scripted ?z "([], [True, True, False])"]
  have "Finish Scripted ?z ([], [True, True, False]) \<noteq> None" by blast
  then show ?thesis
    by (simp add: Finish.simps Scripted_def Let_def called_def)
qed



text \<open>
  C3: in a state other than \<open>Data\<close>, \<open>Write\<close> returns the sequence error and leaves the
  stream and the Blob as they are; so the write request is completed with that status and
  its new Blob, and the round of \<open>DoHandleCallbacks\<close> for it calls the function of the
  request, if it has one, with that status and the bytes of a new Blob, which are none
  when a new Blob is empty. The state is other than \<open>Data\<close> after a \<open>Destroy\<close>, after a
  \<open>Close\<close> that returns, and after a \<open>Write\<close> that returns another status than Ok.
\<close>

theorem Write_outside_Data:
  assumes "state z \<noteq> Data"
  shows "Write P z d dataLength out = Some ((StatusSequenceError P, out), z)
    \<and> DoProcess_switch P z (Request_Write P b cb) =
        Some ((Request_Write P b cb)\<lparr>status := Some (StatusSequenceError P)\<rparr>, z)
    \<and> (BlobBytes P (BlobNew P) = [] \<longrightarrow>
        DoHandleCallbacks_round P
          ((Request_Write P b cb)\<lparr>status := Some (StatusSequenceError P)\<rparr>) (y, h) =
        (y\<lparr>refs := refs y - 1\<rparr>,
         case cb of None \<Rightarrow> h
         | Some f \<Rightarrow> h\<lparr>invoked := invoked h @ [(f, Some (StatusSequenceError P), [])]\<rparr>))
    \<and> state (Destroy P z0) \<noteq> Data
    \<and> (\<forall>ro z1. Close P z0 out0 = Some (ro, z1) \<longrightarrow> state z1 \<noteq> Data)
    \<and> (\<forall>ret out1 z1. Write P z0 d0 n0 out0 = Some ((ret, out1), z1) \<longrightarrow> ret \<noteq> StatusOk P
          \<longrightarrow> state z1 \<noteq> Data)"
proof -
  have a: "Write P z d dataLength out = Some ((StatusSequenceError P, out), z)
    \<and> DoProcess_switch P z (Request_Write P b cb) =
        Some ((Request_Write P b cb)\<lparr>status := Some (StatusSequenceError P)\<rparr>, z)
    \<and> (BlobBytes P (BlobNew P) = [] \<longrightarrow>
        DoHandleCallbacks_round P
          ((Request_Write P b cb)\<lparr>status := Some (StatusSequenceError P)\<rparr>) (y, h) =
        (y\<lparr>refs := refs y - 1\<rparr>,
         case cb of None \<Rightarrow> h
         | Some f \<Rightarrow> h\<lparr>invoked := invoked h @ [(f, Some (StatusSequenceError P), [])]\<rparr>))"
    using assms
    by (simp add: Write_def DoProcess_switch_def Request_Write_def DoHandleCallbacks_round_def
        DoCallback_def split: option.splits)
  have b: "state (Destroy P z0) \<noteq> Data" by (simp add: Destroy_def Let_def)
  have c: "state z1 \<noteq> Data" if "Close P z0 out0 = Some (ro, z1)" for ro z1
    using that
    by (auto simp add: Close_def Let_def leave_def abort_def Transition_def Destroy_def
        split: if_splits option.splits)
  from a b c Write_error_leaves_Data [of P z0 d0 n0 out0] show ?thesis by blast
qed

theorem Write_outside_Data_witness:
  "DoProcess_switch PassThrough \<lparr>processor = (), state = Destroyed, calls = []\<rparr>
      (Request_Write PassThrough (BufferObject ''AB'') (Some 7))
    = Some ((Request_Write PassThrough (BufferObject ''AB'') (Some 7))\<lparr>status := Some (- 2)\<rparr>,
       \<lparr>processor = (), state = Destroyed, calls = []\<rparr>)
   \<and> DoHandleCallbacks_round PassThrough
      ((Request_Write PassThrough (BufferObject ''AB'') (Some 7))\<lparr>status := Some (- 2)\<rparr>)
      (\<lparr>stream = \<lparr>processor = (), state = Destroyed, calls = []\<rparr>, requestsQueue = [],
        processorActive = True, refs = 1\<rparr>,
       \<lparr>callbackQueue = [], ev_refs = 0, invoked = []\<rparr>)
    = (\<lparr>stream = \<lparr>processor = (), state = Destroyed, calls = []\<rparr>, requestsQueue = [],
        processorActive = True, refs = 0\<rparr>,
       \<lparr>callbackQueue = [], ev_refs = 0, invoked = [(7, Some (- 2), [])]\<rparr>)"
  using Write_outside_Data [where z = "\<lparr>processor = (), state = Destroyed, calls = []\<rparr>"
      and P = PassThrough and b = "BufferObject ''AB''" and cb = "Some 7"
      and y = "\<lparr>stream = \<lparr>processor = (), state = Destroyed, calls = []\<rparr>,
        requestsQueue = [], processorActive = True, refs = 1\<rparr>"
      and h = "\<lparr>callbackQueue = [], ev_refs = 0, invoked = []\<rparr>"]
  by (simp add: PassThrough_def)

text \<open>
  C9: in state \<open>Data\<close>, \<open>Write\<close> with the length zero returns Ok and leaves the object
  (its state, its Processor, the calls made) and the Blob as they are: no call of
  \<open>GrowBy\<close>, none of the Processor. So the write request for an empty Buffer is completed
  with Ok and its new Blob, and the callback, if any, gets the bytes of a new Blob, which
  are none when a new Blob is empty.
\<close>

theorem Write_empty_chunk:
  assumes "state z = Data"
  shows "Write P z d 0 out = Some ((StatusOk P, out), z)
    \<and> DoProcess_switch P z (Request_Write P (BufferObject []) cb) =
        Some ((Request_Write P (BufferObject []) cb)\<lparr>status := Some (StatusOk P)\<rparr>, z)
    \<and> outR (Request_Write P (BufferObject []) cb) = BlobNew P
    \<and> (BlobBytes P (BlobNew P) = [] \<longrightarrow>
        DoHandleCallbacks_round P
          ((Request_Write P (BufferObject []) cb)\<lparr>status := Some (StatusOk P)\<rparr>) (y, h) =
        (y\<lparr>refs := refs y - 1\<rparr>,
         case cb of None \<Rightarrow> h
         | Some f \<Rightarrow> h\<lparr>invoked := invoked h @ [(f, Some (StatusOk P), [])]\<rparr>))"
  using assms
  by (simp add: Write_def Write_loop.simps Let_def leave_def abort_def Transition_def
      DoProcess_switch_def Request_Write_def DoHandleCallbacks_round_def DoCallback_def
      split: option.splits)

theorem Write_empty_chunk_witness:
  "Write Scripted \<lparr>processor = [- 3], state = Data, calls = []\<rparr> ([], 0) 0 ([], [False])
    = Some ((0, ([], [False])), \<lparr>processor = [- 3], state = Data, calls = []\<rparr>)"
  using Write_empty_chunk [where z = "\<lparr>processor = [- 3], state = Data, calls = []\<rparr>"
      and P = Scripted and d = "([], 0)" and out = "([], [False])"]
  by (simp add: Scripted_def)

section \<open>The claims on the bindings\<close>

text \<open>
  C7: \<open>write\<close> with a first argument that is no Buffer, or with a second argument that is
  neither undefined nor a function, and \<open>close\<close> with a first argument that is neither
  undefined nor a function, throw a TypeError: no request is made, \<open>DoProcess\<close> is not
  started, and the object and the process are as before the call.
\<close>

theorem malformed_arguments:
  "((\<not> HasInstance (arg args 0)
      \<or> (1 < length args \<and> \<not> IsUndefined (arg args 1) \<and> \<not> IsFunction (arg args 1)))
      \<longrightarrow> (\<exists>msg. request_of P MWrite new_ok args = Inl (TypeError msg)
             \<and> js_call P MWrite (new_ok, push_ok) args zh = ((Inl (TypeError msg), False), zh)
             \<and> (control s = InJS \<longrightarrow> fire P (Js MWrite args new_ok push_ok) s = Some s)))
   \<and> ((0 < length args \<and> \<not> IsUndefined (arg args 0) \<and> \<not> IsFunction (arg args 0))
      \<longrightarrow> (\<exists>msg. request_of P MClose new_ok args = Inl (TypeError msg)
             \<and> js_call P MClose (new_ok, push_ok) args zh = ((Inl (TypeError msg), False), zh)
             \<and> (control s = InJS \<longrightarrow> fire P (Js MClose args new_ok push_ok) s = Some s)))"
  by (auto simp add: Write_request_def Close_request_def js_call_def fire_Js_def
      ThrowCallbackExpected_def)

theorem malformed_arguments_witness:
  "js_call PassThrough MWrite (True, True) [String ''AB'', Function 1] (ZipLib_ctor PassThrough, \<lparr>callbackQueue = [], ev_refs = 0, invoked = []\<rparr>)
     = ((Inl (TypeError ''Input must be of type Buffer''), False), (ZipLib_ctor PassThrough, \<lparr>callbackQueue = [], ev_refs = 0, invoked = []\<rparr>))
   \<and> js_call PassThrough MWrite (True, True) [BufferObject ''AB'', Number 1]
        (ZipLib_ctor PassThrough, \<lparr>callbackQueue = [], ev_refs = 0, invoked = []\<rparr>)
     = ((Inl (TypeError ''Callback must be a function''), False), (ZipLib_ctor PassThrough, \<lparr>callbackQueue = [], ev_refs = 0, invoked = []\<rparr>))
   \<and> js_call PassThrough MClose (True, True) [Null] (ZipLib_ctor PassThrough, \<lparr>callbackQueue = [], ev_refs = 0, invoked = []\<rparr>)
     = ((Inl (TypeError ''Callback must be a function''), False), (ZipLib_ctor PassThrough, \<lparr>callbackQueue = [], ev_refs = 0, invoked = []\<rparr>))"
  using malformed_arguments [of "[String ''AB'', Function 1]" PassThrough True True
      "(ZipLib_ctor PassThrough, \<lparr>callbackQueue = [], ev_refs = 0, invoked = []\<rparr>)" "boot (ZipLib_ctor PassThrough)"]
  by (simp add: js_call_def Write_request_def Close_request_def arg_def
      ThrowCallbackExpected_def)

text \<open>
  C10: \<open>write\<close> with a Buffer and \<open>close\<close>, called with no callback or with
  \<open>undefined\<close> for it, throw nothing and make a request with an empty callback handle;
  with both allocations made, the request is put on the queue as any other. The
  \<open>switch\<close> of \<open>DoProcess\<close> does to a request what it does to the same request with
  another callback. For a request with an empty callback handle the round of
  \<open>DoHandleCallbacks\<close> calls no function. A destroy request has an empty callback handle,
  and \<open>DoProcess\<close> completes it with the status Ok (and always does complete it).
\<close>

theorem optional_callback:
  "(HasInstance b \<longrightarrow>
      Write_request P new_ok [b] = Inr (if new_ok then Some (Request_Write P b None) else None)
      \<and> Write_request P new_ok [b, Undefined]
          = Inr (if new_ok then Some (Request_Write P b None) else None)
      \<and> js_call P MWrite (True, True) [b] (z, h) =
          ((Inr Undefined, \<not> processorActive z),
           (z\<lparr>requestsQueue := requestsQueue z @ [Request_Write P b None],
               processorActive := True, refs := refs z + 1\<rparr>,
            h\<lparr>ev_refs := ev_refs h + 1\<rparr>)))
   \<and> Close_request P new_ok [] = Inr (if new_ok then Some (Request_Close P None) else None)
   \<and> Close_request P new_ok [Undefined]
       = Inr (if new_ok then Some (Request_Close P None) else None)
   \<and> js_call P MClose (True, True) [] (z, h) =
       ((Inr Undefined, \<not> processorActive z),
        (z\<lparr>requestsQueue := requestsQueue z @ [Request_Close P None],
            processorActive := True, refs := refs z + 1\<rparr>,
         h\<lparr>ev_refs := ev_refs h + 1\<rparr>))
   \<and> DoProcess_switch P st (r\<lparr>callback := c\<rparr>) =
       map_option (\<lambda>(r1, st1). (r1\<lparr>callback := c\<rparr>, st1)) (DoProcess_switch P st r)
   \<and> (callback r = None \<longrightarrow>
        DoHandleCallbacks_round P r (z, h) = (z\<lparr>refs := refs z - 1\<rparr>, h))
   \<and> Destroy_request P new_ok args = Inr (if new_ok then Some (Request_Destroy P) else None)
   \<and> callback (Request_Destroy P) = None
   \<and> DoProcess_switch P st (Request_Destroy P) =
       Some ((Request_Destroy P)\<lparr>status := Some (StatusOk P)\<rparr>, Destroy P st)"
proof -
  have w: "HasInstance b \<longrightarrow>
      Write_request P new_ok [b] = Inr (if new_ok then Some (Request_Write P b None) else None)
      \<and> Write_request P new_ok [b, Undefined]
          = Inr (if new_ok then Some (Request_Write P b None) else None)
      \<and> js_call P MWrite (True, True) [b] (z, h) =
          ((Inr Undefined, \<not> processorActive z),
           (z\<lparr>requestsQueue := requestsQueue z @ [Request_Write P b None],
               processorActive := True, refs := refs z + 1\<rparr>,
            h\<lparr>ev_refs := ev_refs h + 1\<rparr>))"
    by (simp add: Write_request_def arg_def js_call_def PushRequest_def PushRequest_locked_def Queue_Push_def
        PushRequest_unlocked_def Let_def)
  have c: "Close_request P new_ok [] = Inr (if new_ok then Some (Request_Close P None) else None)"
    "Close_request P new_ok [Undefined]
       = Inr (if new_ok then Some (Request_Close P None) else None)"
    "js_call P MClose (True, True) [] (z, h) =
       ((Inr Undefined, \<not> processorActive z),
        (z\<lparr>requestsQueue := requestsQueue z @ [Request_Close P None],
            processorActive := True, refs := refs z + 1\<rparr>,
         h\<lparr>ev_refs := ev_refs h + 1\<rparr>))"
    by (simp_all add: Close_request_def arg_def js_call_def PushRequest_def
        PushRequest_locked_def Queue_Push_def PushRequest_unlocked_def Let_def)
  have x: "DoProcess_switch P st (r\<lparr>callback := c\<rparr>) =
       map_option (\<lambda>(r1, st1). (r1\<lparr>callback := c\<rparr>, st1)) (DoProcess_switch P st r)"
    by (simp add: DoProcess_switch_def split: Kind.splits option.splits)
  have n: "callback r = None \<longrightarrow>
        DoHandleCallbacks_round P r (z, h) = (z\<lparr>refs := refs z - 1\<rparr>, h)"
    by (simp add: DoHandleCallbacks_round_def DoCallback_def)
  have d: "Destroy_request P new_ok args = Inr (if new_ok then Some (Request_Destroy P) else None)"
    "callback (Request_Destroy P) = None"
    "DoProcess_switch P st (Request_Destroy P) =
       Some ((Request_Destroy P)\<lparr>status := Some (StatusOk P)\<rparr>, Destroy P st)"
    by (simp_all add: Destroy_request_def Request_Destroy_def DoProcess_switch_def)
  from w c x n d show ?thesis by blast
qed

theorem optional_callback_witness:
  "js_call PassThrough MWrite (True, True) [BufferObject ''AB'']
      (\<lparr>stream = \<lparr>processor = (), state = Data, calls = []\<rparr>, requestsQueue = [],
        processorActive = False, refs = 0\<rparr>,
       \<lparr>callbackQueue = [], ev_refs = 0, invoked = []\<rparr>)
    = ((Inr Undefined, True),
       (\<lparr>stream = \<lparr>processor = (), state = Data, calls = []\<rparr>,
         requestsQueue = [Request_Write PassThrough (BufferObject ''AB'') None],
         processorActive = True, refs = 1\<rparr>,
        \<lparr>callbackQueue = [], ev_refs = 1, invoked = []\<rparr>))
   \<and> DoHandleCallbacks_round PassThrough
        ((Request_Write PassThrough (BufferObject ''AB'') None)\<lparr>outR := ''AB'', status := Some 0\<rparr>)
        (\<lparr>stream = \<lparr>processor = (), state = Data, calls = []\<rparr>, requestsQueue = [],
          processorActive = False, refs = 1\<rparr>,
         \<lparr>callbackQueue = [], ev_refs = 0, invoked = []\<rparr>)
    = (\<lparr>stream = \<lparr>processor = (), state = Data, calls = []\<rparr>, requestsQueue = [],
        processorActive = False, refs = 0\<rparr>,
       \<lparr>callbackQueue = [], ev_refs = 0, invoked = []\<rparr>)"
  using optional_callback [where b = "BufferObject ''AB''" and P = PassThrough
      and z = "\<lparr>stream = \<lparr>processor = (), state = Data, calls = []\<rparr>, requestsQueue = [],
        processorActive = False, refs = 0\<rparr>"
      and h = "\<lparr>callbackQueue = [], ev_refs = 0, invoked = []\<rparr>"]
    optional_callback [where P = PassThrough
      and z = "\<lparr>stream = \<lparr>processor = (), state = Data, calls = []\<rparr>, requestsQueue = [],
        processorActive = False, refs = 1\<rparr>"
      and h = "\<lparr>callbackQueue = [], ev_refs = 0, invoked = []\<rparr>"
      and r = "(Request_Write PassThrough (BufferObject ''AB'') None)\<lparr>outR := ''AB'', status := Some 0\<rparr>"]
  by (simp add: PassThrough_def Request_Write_def)

section \<open>The claims on the threads\<close>

text \<open>
  C8: in every state that the threads of a new object can reach, by any interleaving of
  calls from JavaScript, steps of workers and callbacks, at most one call of \<open>DoProcess\<close>
  is queued or running, so at most one thread is in \<open>Write\<close>, \<open>Close\<close> or \<open>Destroy\<close>; there
  is one exactly when \<open>processorActive_\<close> is set, the one about to be queued counted in.
  A \<open>PushRequest\<close> that finds the flag set appends the request, when the queue can
  allocate, and does not call \<open>eio_custom\<close>. \<open>DoProcess\<close> sets the flag, under the mutex,
  to whether the queue holds a request, and the worker leaves when it does not and goes
  back to popping when it does.
\<close>

theorem single_flight_dispatch:
  assumes "run P es (boot z) = Some s"
    and "\<not> processorActive z" and "requestsQueue z = []"
  shows "length (workers s) \<le> 1
    \<and> length (workers s) + starting (control s) = (if processorActive (inst s) then 1 else 0)
    \<and> (processorActive y \<longrightarrow>
          PushRequest_locked push_ok r y =
            ((push_ok, False),
             if push_ok then y\<lparr>requestsQueue := requestsQueue y @ [r]\<rparr> else y)
          \<and> snd (fst (PushRequest push_ok (Some r) (y, h))) = False)
    \<and> DoProcess_check y =
          (requestsQueue y \<noteq> [], y\<lparr>processorActive := (requestsQueue y \<noteq> [])\<rparr>)
    \<and> (i < length (workers s) \<and> workers s ! i = AtCheck \<longrightarrow>
          fire P (Check i) s =
            Some (s\<lparr>inst := (inst s)\<lparr>processorActive := (requestsQueue (inst s) \<noteq> [])\<rparr>,
                    workers := (if requestsQueue (inst s) \<noteq> [] then [AtPop] else [])\<rparr>))"
proof -
  have "single_flight (boot z)" using assms(2,3) by (rule single_flight_boot)
  with assms(1) have sf: "single_flight s" by (rule single_flight_run)
  then have a: "length (workers s) + starting (control s)
      = (if processorActive (inst s) then 1 else 0)"
    by (simp add: single_flight_def)
  then have b: "length (workers s) \<le> 1" by (simp split: if_splits)
  have c: "PushRequest_locked push_ok r y =
            ((push_ok, False),
             if push_ok then y\<lparr>requestsQueue := requestsQueue y @ [r]\<rparr> else y)
          \<and> snd (fst (PushRequest push_ok (Some r) (y, h))) = False" if "processorActive y"
    using that
    by (simp add: PushRequest_locked_def Queue_Push_def PushRequest_def PushRequest_unlocked_def Let_def)
  have d: "DoProcess_check y =
          (requestsQueue y \<noteq> [], y\<lparr>processorActive := (requestsQueue y \<noteq> [])\<rparr>)"
    by (simp add: DoProcess_check_def Let_def)
  have e: "fire P (Check i) s =
            Some (s\<lparr>inst := (inst s)\<lparr>processorActive := (requestsQueue (inst s) \<noteq> [])\<rparr>,
                    workers := (if requestsQueue (inst s) \<noteq> [] then [AtPop] else [])\<rparr>)"
    if "i < length (workers s)" "workers s ! i = AtCheck"
  proof -
    from one_worker [OF sf that(1)] that(2) have "i = 0" "workers s = [AtCheck]" by auto
    then show ?thesis by (simp add: fire_Check_def DoProcess_check_def Let_def)
  qed
  from a b c d e show ?thesis by blast
qed

theorem single_flight_dispatch_witness:
  "run PassThrough
     [Js MWrite [BufferObject ''AB''] True True, Unlocked, Js MClose [] True True, Unlocked,
      Pop 0]
     (boot \<lparr>stream = \<lparr>processor = (), state = Data, calls = [CInit True]\<rparr>,
            requestsQueue = [], processorActive = False, refs = 0\<rparr>)
   = Some \<lparr>inst = \<lparr>stream = \<lparr>processor = (), state = Data, calls = [CInit True]\<rparr>,
                    requestsQueue = [Request_Close PassThrough None],
                    processorActive = True, refs = 2\<rparr>,
           host = \<lparr>callbackQueue = [], ev_refs = 2, invoked = []\<rparr>,
           control = InJS,
           workers = [AtSwitch (Request_Write PassThrough (BufferObject ''AB'') None)]\<rparr>"
proof -
  let ?z = "\<lparr>stream = \<lparr>processor = (), state = Data, calls = [CInit True]\<rparr>,
            requestsQueue = [], processorActive = False, refs = 0\<rparr> :: (unit, string) ZipLib"
  let ?es = "[Js MWrite [BufferObject ''AB''] True True, Unlocked, Js MClose [] True True,
              Unlocked, Pop 0]"
  obtain s where r: "run PassThrough ?es (boot ?z) = Some s"
    by (simp add: boot_def fire_Js_def fire_Unlocked_def fire_Pop_def Write_request_def
        Close_request_def arg_def PushRequest_locked_def Queue_Push_def PushRequest_unlocked_def
        ReentrantPop_eq Let_def)
  have a: "\<not> processorActive ?z" and b: "requestsQueue ?z = []" by simp_all
  from single_flight_dispatch [OF r a b] have "length (workers s) \<le> 1" by (rule conjunct1)
  with r show ?thesis
    by (simp add: boot_def fire_Js_def fire_Unlocked_def fire_Pop_def Write_request_def
        Close_request_def arg_def PushRequest_locked_def Queue_Push_def PushRequest_unlocked_def
        ReentrantPop_eq Let_def)
qed

text \<open>
  C6: take a new object on the pass-through Processor and any run of its threads in which
  the calls from JavaScript are \<open>write("AB", f1)\<close>, \<open>write("CD", f2)\<close> and \<open>close(f3)\<close>,
  in this order, with every allocation made. Then at every moment the callbacks made so
  far are the first of \<open>f1\<close> with Ok and "AB", \<open>f2\<close> with Ok and "CD", \<open>f3\<close> with Ok and no
  bytes, in this order. When the threads are quiescent all three have been made, the
  state is \<open>Destroyed\<close> and a \<open>Write\<close> returns the sequence error. When they are not, some
  thread can take a step; and no such run has more than 45 steps, so every run can be
  continued to a quiescent state and cannot be continued for ever.
\<close>

theorem write_write_close:
  assumes "New PassThrough True args = (None, Some z)"
    and "run PassThrough es (boot z) = Some s"
    and "filter is_Js es = scenario"
    and "list_all no_failed_push es"
  shows "invoked (host s) =
           take (length (invoked (host s)))
             [(1, Some (StatusOk PassThrough), ''AB''), (2, Some (StatusOk PassThrough), ''CD''),
              (3, Some (StatusOk PassThrough), [])]
    \<and> (quiescent s \<longrightarrow>
          invoked (host s) =
            [(1, Some (StatusOk PassThrough), ''AB''), (2, Some (StatusOk PassThrough), ''CD''),
             (3, Some (StatusOk PassThrough), [])]
          \<and> state (stream (inst s)) = Destroyed
          \<and> Write PassThrough (stream (inst s)) d n out =
              Some ((StatusSequenceError PassThrough, out), stream (inst s)))
    \<and> (\<not> quiescent s \<longrightarrow>
          (\<exists>e. \<not> is_Js e \<and> no_failed_push e \<and> fire PassThrough e s \<noteq> None))
    \<and> length es \<le> 45"
proof -
  let ?st0 = "\<lparr>processor = (), state = Data, calls = [CInit True]\<rparr> :: unit Stream"
  let ?full = "[(1, Some 0, ''AB''), (2, Some 0, ''CD''), (3, Some 0, [])]
                 :: (nat \<times> int option \<times> string) list"
  from assms(1) have z: "z = \<lparr>stream = ?st0, requestsQueue = [], processorActive = False, refs = 0\<rparr>"
    by (simp add: New_def ZipLib_ctor_def PassThrough_def Let_def called_def leave_def
        alter_def Transition_def)
  have ok: "StatusOk PassThrough = 0" by (simp add: PassThrough_def)
  have sf0: "single_flight (boot z)" by (rule single_flight_boot) (simp_all add: z)
  have "in_order PassThrough (stream z) [] (boot (z\<lparr>requestsQueue := []\<rparr>))"
    by (rule in_order_boot)
  then have io0: "in_order PassThrough ?st0 [] (boot z)" by (simp add: z)
  from single_flight_run [OF assms(2) sf0] have sf: "single_flight s" .
  from in_order_run [OF assms(2) io0 sf0 assms(4)]
  have "in_order PassThrough ?st0 (accepted PassThrough es) s" by simp
  moreover have "accepted PassThrough es = accepted PassThrough scenario"
    using accepted_filter [of PassThrough es] assms(3) by simp
  ultimately obtain A1 D where
    A: "accepted PassThrough scenario = A1 @ unserved s"
    and D: "serve PassThrough ?st0 A1 = Some (D, stream (inst s))"
    and I: "invoked (host s) @ callbacks PassThrough (completed s) = callbacks PassThrough D"
    unfolding in_order_def by auto
  from scenario_served A D obtain D2 st2 where
    D2: "serve PassThrough (stream (inst s)) (unserved s) = Some (D2, st2)"
    and F: "[(Request_Write PassThrough (BufferObject ''AB'') (Some 1))
              \<lparr>outR := ''AB'', status := Some 0\<rparr>,
            (Request_Write PassThrough (BufferObject ''CD'') (Some 2))
              \<lparr>outR := ''CD'', status := Some 0\<rparr>,
            (Request_Close PassThrough (Some 3))\<lparr>outR := [], status := Some 0\<rparr>] = D @ D2"
    and st2: "st2 = \<lparr>processor = (), state = Destroyed,
            calls = [CInit True, CGrowBy 3 True, CWrite 2 0 0, CGrowBy 3 True, CWrite 2 0 0,
                     CGrowBy 128 True, CFinish 1, CDestroy]\<rparr>"
    by (auto simp add: serve_append split: option.splits)
  have "callbacks PassThrough (D @ D2) = ?full"
    unfolding F [symmetric]
    by (simp add: Request_Write_def Request_Close_def PassThrough_def)
  then have "callbacks PassThrough D @ callbacks PassThrough D2 = ?full"
    by (simp add: callbacks_append)
  then have full: "invoked (host s) @ callbacks PassThrough (completed s)
      @ callbacks PassThrough D2 = ?full"
    unfolding I [symmetric] by simp
  have one: "invoked (host s) = take (length (invoked (host s))) ?full"
    by (subst full [symmetric]) simp
  have two: "invoked (host s) = ?full \<and> state (stream (inst s)) = Destroyed
      \<and> Write PassThrough (stream (inst s)) d n out =
              Some ((StatusSequenceError PassThrough, out), stream (inst s))" if "quiescent s"
  proof -
    from that have "unserved s = []" and "completed s = []"
      by (simp_all add: quiescent_def unserved_def completed_def)
    with D2 full st2 show ?thesis by (simp add: Write_def)
  qed
  have three: "\<exists>e. \<not> is_Js e \<and> no_failed_push e \<and> fire PassThrough e s \<noteq> None"
    if "\<not> quiescent s"
  proof (rule not_stuck [OF sf that])
    fix r assume "workers s = [AtSwitch r]"
    then have "unserved s = r # requestsQueue (inst s)" by (simp add: unserved_def)
    with D2 show "DoProcess_switch PassThrough (stream (inst s)) r \<noteq> None"
      by (auto split: option.splits)
  qed
  from steps_left_run [OF assms(2) sf0] assms(3)
  have "length (filter (\<lambda>e. \<not> is_Js e) es) \<le> 42"
    by (simp add: steps_left_def boot_def z scenario_def)
  with length_split [of es] assms(3) have four: "length es \<le> 45"
    by (simp add: scenario_def)
  from one two three four show ?thesis by (simp add: ok)
qed

theorem write_write_close_witness:
  "run PassThrough scenario_run
     (boot \<lparr>stream = \<lparr>processor = (), state = Data, calls = [CInit True]\<rparr>,
            requestsQueue = [], processorActive = False, refs = 0\<rparr>)
   = Some \<lparr>inst = \<lparr>stream = \<lparr>processor = (), state = Destroyed,
                      calls = [CInit True, CGrowBy 3 True, CWrite 2 0 0, CGrowBy 3 True,
                               CWrite 2 0 0, CGrowBy 128 True, CFinish 1, CDestroy]\<rparr>,
                    requestsQueue = [], processorActive = False, refs = 0\<rparr>,
           host = \<lparr>callbackQueue = [], ev_refs = 0,
                    invoked = [(1, Some 0, ''AB''), (2, Some 0, ''CD''), (3, Some 0, [])]\<rparr>,
           control = InJS, workers = []\<rparr>"
proof -
  let ?z = "\<lparr>stream = \<lparr>processor = (), state = Data, calls = [CInit True]\<rparr>,
            requestsQueue = [], processorActive = False, refs = 0\<rparr> :: (unit, string) ZipLib"
  have n: "New PassThrough True [] = (None, Some ?z)"
    by (simp add: New_def ZipLib_ctor_def PassThrough_def Let_def called_def leave_def
        alter_def Transition_def)
  have f: "filter is_Js scenario_run = scenario"
    by (simp add: scenario_run_def scenario_def)
  have p: "list_all no_failed_push scenario_run"
    by (simp add: scenario_run_def)
  obtain s where r: "run PassThrough scenario_run (boot ?z) = Some s"
    by (simp add: scenario_run_def boot_def fire_Js_def fire_Unlocked_def fire_Pop_def
        fire_Switch_def fire_Push_def fire_Check_def fire_Callback_def Write_request_def
        Close_request_def arg_def PushRequest_locked_def Queue_Push_def PushRequest_unlocked_def
        ReentrantPop_eq DoProcess_switch_def DoProcess_push_def Queue_Push_def DoProcess_check_def
        DoHandleCallbacks_round_def DoCallback_def Request_Write_def Request_Close_def
        Write_def Write_loop.simps Close_def Finish.simps Destroy_def PassThrough_def
        Let_def called_def leave_def Transition_def abort_def ptr_add_def ptr_sub_def)
  from write_write_close [OF n r f p] have "length scenario_run \<le> 45" by simp
  with r show ?thesis
    by (simp add: scenario_run_def boot_def fire_Js_def fire_Unlocked_def fire_Pop_def
        fire_Switch_def fire_Push_def fire_Check_def fire_Callback_def Write_request_def
        Close_request_def arg_def PushRequest_locked_def Queue_Push_def PushRequest_unlocked_def
        ReentrantPop_eq DoProcess_switch_def DoProcess_push_def Queue_Push_def DoProcess_check_def
        DoHandleCallbacks_round_def DoCallback_def Request_Write_def Request_Close_def
        Write_def Write_loop.simps Close_def Finish.simps Destroy_def PassThrough_def
        Let_def called_def leave_def Transition_def abort_def ptr_add_def ptr_sub_def)
qed

end
